theory Spec2Isabelle
  imports
    Complex_Main
    "HOL-Library.Log_Nat"
    "HOL-Library.Sublist"
    "HOL-Library.Char_ord"
    "HOL-Library.List_Lexorder"
begin

section \<open>Python values used by ocr.py\<close>

subsection \<open>Strings\<close>

text \<open>
  A Python \<open>str\<close> is a sequence of code points. The model uses \<open>string\<close> and reads
  every \<open>char\<close> as the code point of the same number, so it covers the texts whose
  code points are below 256 (ASCII and Latin-1, which holds the degree sign U+00B0 and
  the letter U+00C2 of the source's literal). Non-ASCII characters are written
  \<open>CHR 0xB0\<close>.
\<close>

definition is_space :: "char \<Rightarrow> bool" where
  \<comment> \<open>\<open>str.isspace\<close> on code points below 256\<close>
  "is_space c = (of_char c \<in> {9, 10, 11, 12, 13, 28, 29, 30, 31, 32, 133, 160 :: nat})"

definition py_strip :: "string \<Rightarrow> string" where
  \<comment> \<open>\<open>s.strip()\<close>\<close>
  "py_strip s = rev (dropWhile is_space (rev (dropWhile is_space s)))"

definition remove_spaces :: "string \<Rightarrow> string" where
  \<comment> \<open>\<open>s.replace(" ", "")\<close>\<close>
  "remove_spaces s = filter (\<lambda>c. c \<noteq> CHR '' '') s"

definition is_digit :: "char \<Rightarrow> bool" where
  \<comment> \<open>the class \<open>[0-9]\<close>; \<open>\d\<close> matches nothing else below code point 256\<close>
  "is_digit c = (c \<in> set ''0123456789'')"

definition is_sign :: "char \<Rightarrow> bool" where
  \<comment> \<open>the class \<open>[+-]\<close>, and \<open>s.startswith(("+", "-"))\<close> on the first character\<close>
  "is_sign c = (c = CHR ''+'' \<or> c = CHR ''-'')"

definition py_isdigit :: "string \<Rightarrow> bool" where
  \<comment> \<open>\<open>s.isdigit()\<close>: non-empty, every character a digit; below code point 256 the
      superscripts U+00B2, U+00B3 and U+00B9 count as digits too\<close>
  "py_isdigit s =
     (s \<noteq> [] \<and> list_all (\<lambda>c. is_digit c \<or> of_char c \<in> {178, 179, 185 :: nat}) s)"

definition lower_char :: "char \<Rightarrow> char" where
  \<comment> \<open>\<open>str.lower\<close> on one code point below 256: A-Z and U+00C0..U+00DE (without the
      multiplication sign U+00D7) move up by 32\<close>
  "lower_char c =
     (let n = of_char c :: nat
      in if (65 \<le> n \<and> n \<le> 90) \<or> (192 \<le> n \<and> n \<le> 222 \<and> n \<noteq> 215)
         then char_of (n + 32) else c)"

definition py_lower :: "string \<Rightarrow> string" where
  "py_lower s = map lower_char s"

fun contains :: "string \<Rightarrow> string \<Rightarrow> bool" where
  \<comment> \<open>\<open>sub in t\<close> for strings\<close>
  "contains sub [] = (sub = [])"
| "contains sub (c # cs) = (prefix sub (c # cs) \<or> contains sub cs)"

definition digit_val :: "char \<Rightarrow> int" where
  "digit_val c = int (of_char c) - 48"

definition digits_val :: "string \<Rightarrow> int" where
  \<comment> \<open>\<open>int(s)\<close> for a string of ASCII digits\<close>
  "digits_val s = foldl (\<lambda>a c. 10 * a + digit_val c) 0 s"

subsection \<open>Floats\<close>

text \<open>
  A Python \<open>float\<close> is an IEEE 754 double: a finite value (kept as the rational it
  denotes), an infinity or a NaN. The sign of zero is not kept. Every arithmetic
  operation and every conversion from a decimal literal, a string or an \<open>int\<close> is the
  exact result rounded to the nearest double, ties to even, which \<open>round_double\<close>
  computes.
\<close>

datatype pyfloat = Fin rat | PInf | NInf | NaN

definition ilog2 :: "rat \<Rightarrow> int" where
  \<comment> \<open>for \<open>0 < a\<close>, the exponent \<open>e\<close> with \<open>2 ^ e \<le> a < 2 ^ (e + 1)\<close>\<close>
  "ilog2 a = (if 1 \<le> a then bitlen \<lfloor>a\<rfloor> - 1 else - bitlen (\<lceil>1 / a\<rceil> - 1))"

definition round_half_even :: "rat \<Rightarrow> int" where
  "round_half_even y =
     (let f = \<lfloor>y\<rfloor>; d = y - of_int f
      in if d < 1 / 2 then f else if 1 / 2 < d then f + 1 else if even f then f else f + 1)"

definition round_double :: "rat \<Rightarrow> pyfloat" where
  \<comment> \<open>53 significant bits, least exponent -1022 (subnormals below), overflow at
      \<open>2 ^ 1024\<close>\<close>
  "round_double x =
     (if x = 0 then Fin 0
      else let a = \<bar>x\<bar>;
               e = max (ilog2 a) (- 1022);
               q = 2 powi (e - 52);
               r = of_int (round_half_even (a / q)) * q
           in if 2 ^ 1024 \<le> r then (if 0 < x then PInf else NInf)
              else Fin (if 0 < x then r else - r))"

fun fneg :: "pyfloat \<Rightarrow> pyfloat" where
  "fneg (Fin a) = Fin (- a)"
| "fneg PInf = NInf"
| "fneg NInf = PInf"
| "fneg NaN = NaN"

fun fabs :: "pyfloat \<Rightarrow> pyfloat" where
  "fabs (Fin a) = Fin \<bar>a\<bar>"
| "fabs PInf = PInf"
| "fabs NInf = PInf"
| "fabs NaN = NaN"

fun fadd :: "pyfloat \<Rightarrow> pyfloat \<Rightarrow> pyfloat" where
  "fadd (Fin a) (Fin b) = round_double (a + b)"
| "fadd NaN y = NaN"
| "fadd x NaN = NaN"
| "fadd PInf NInf = NaN"
| "fadd NInf PInf = NaN"
| "fadd PInf y = PInf"
| "fadd NInf y = NInf"
| "fadd x PInf = PInf"
| "fadd x NInf = NInf"

definition fsub :: "pyfloat \<Rightarrow> pyfloat \<Rightarrow> pyfloat" where
  "fsub x y = fadd x (fneg y)"

fun flt :: "pyfloat \<Rightarrow> pyfloat \<Rightarrow> bool" where
  \<comment> \<open>\<open>x < y\<close>; every comparison with a NaN is false\<close>
  "flt NaN y = False"
| "flt x NaN = False"
| "flt (Fin a) (Fin b) = (a < b)"
| "flt x NInf = False"
| "flt PInf y = False"
| "flt NInf y = True"
| "flt x PInf = True"

fun fle :: "pyfloat \<Rightarrow> pyfloat \<Rightarrow> bool" where
  \<comment> \<open>\<open>x <= y\<close>\<close>
  "fle NaN y = False"
| "fle x NaN = False"
| "fle (Fin a) (Fin b) = (a \<le> b)"
| "fle NInf y = True"
| "fle x PInf = True"
| "fle x NInf = False"
| "fle PInf y = False"

definition fgt :: "pyfloat \<Rightarrow> pyfloat \<Rightarrow> bool" where
  \<comment> \<open>\<open>x > y\<close>\<close>
  "fgt x y = flt y x"

definition float_of_int :: "int \<Rightarrow> pyfloat" where
  \<comment> \<open>\<open>float(n)\<close> for an \<open>int\<close>\<close>
  "float_of_int n = round_double (of_int n)"

definition py_float :: "string \<Rightarrow> pyfloat option" where
  \<comment> \<open>\<open>float(s)\<close> on plain decimal notation, the only one the callers below can pass:
      an optional sign, then digits with an optional point and further digits, or a
      point and digits. \<open>None\<close> is the \<open>ValueError\<close>. The exponents, underscores,
      \<open>inf\<close>, \<open>nan\<close> and surrounding whitespace that \<open>float\<close> also accepts are not
      modelled; the statements about \<open>float\<close> below are on strings of signs, digits
      and points.\<close>
  "py_float s =
     (let (neg, b) = (case s of [] \<Rightarrow> (False, s)
                      | c # r \<Rightarrow> if c = CHR ''-'' then (True, r)
                                else if c = CHR ''+'' then (False, r) else (False, s));
          ip = takeWhile is_digit b;
          r1 = dropWhile is_digit b;
          (fp, r2) = (case r1 of [] \<Rightarrow> ([], [])
                      | c # r \<Rightarrow> if c = CHR ''.''
                                then (takeWhile is_digit r, dropWhile is_digit r)
                                else ([], r1))
      in if r2 = [] \<and> ip @ fp \<noteq> []
         then Some (round_double
                ((if neg then - 1 else 1) * (of_int (digits_val (ip @ fp)) / 10 ^ length fp)))
         else None)"

fun py_min :: "pyfloat \<Rightarrow> pyfloat list \<Rightarrow> pyfloat" where
  \<comment> \<open>\<open>min\<close> of a non-empty list, head and tail: the first of the least items\<close>
  "py_min m [] = m"
| "py_min m (y # ys) = py_min (if flt y m then y else m) ys"

fun py_max_key :: "('a \<Rightarrow> pyfloat) \<Rightarrow> 'a \<Rightarrow> 'a list \<Rightarrow> 'a" where
  \<comment> \<open>\<open>max(xs, key=k)\<close> of a non-empty sequence, head and tail: the first item of
      greatest key\<close>
  "py_max_key k m [] = m"
| "py_max_key k m (y # ys) = py_max_key k (if fgt (k y) (k m) then y else m) ys"

section \<open>Constants\<close>

definition SCORE_THRESHOLD :: pyfloat where
  "SCORE_THRESHOLD = round_double (70 / 100)"

definition ROTATIONS :: "int list" where
  "ROTATIONS = [0, 90, - 90, 180]"

definition ANGLE_LIMIT_ABS :: pyfloat where
  "ANGLE_LIMIT_ABS = round_double 100"

definition TEMP_MAX :: pyfloat where
  "TEMP_MAX = round_double 80"

section \<open>Text normalizer\<close>

definition unsigned_match :: "string \<Rightarrow> string" where
  \<comment> \<open>the greedy match of \<open>\d+(\.\d+)?\<close> at the head of a string that starts with a
      digit\<close>
  "unsigned_match s =
     (let ds = takeWhile is_digit s
      in case dropWhile is_digit s of
           [] \<Rightarrow> ds
         | c # r \<Rightarrow> if c = CHR ''.'' \<and> takeWhile is_digit r \<noteq> []
                   then ds @ CHR ''.'' # takeWhile is_digit r else ds)"

fun search_num :: "string \<Rightarrow> string option" where
  \<comment> \<open>\<open>re.search(r"[+-]?\d+(\.\d+)?", t)\<close>: the leftmost match, \<open>group(0)\<close>\<close>
  "search_num [] = None"
| "search_num (c # cs) =
     (if is_sign c \<and> (case cs of [] \<Rightarrow> False | d # _ \<Rightarrow> is_digit d)
      then Some (c # unsigned_match cs)
      else if is_digit c then Some (unsigned_match (c # cs))
      else search_num cs)"

definition extract_num_str :: "string \<Rightarrow> string option" where
  "extract_num_str txt = (if txt = [] then None else search_num (remove_spaces txt))"

definition sign_first :: "string \<Rightarrow> bool" where
  "sign_first txt =
     (case remove_spaces txt of c # d # _ \<Rightarrow> is_sign c \<and> is_digit d | _ \<Rightarrow> False)"

definition has_temp_hint :: "string \<Rightarrow> bool" where
  \<comment> \<open>the second literal of the source is the two code points U+00C2 U+00B0\<close>
  "has_temp_hint txt =
     (let t = py_lower txt
      in contains ''c'' t \<or> contains [CHR 0xC2, CHR 0xB0] t)"

definition has_depth_hint :: "string \<Rightarrow> bool" where
  "has_depth_hint txt = (let t = py_lower txt in contains ''m'' t)"

section \<open>Field repair rules\<close>

definition normalize_angle :: "string option \<Rightarrow> string option" where
  "normalize_angle num_str =
     (case num_str of None \<Rightarrow> None
      | Some n \<Rightarrow>
          if n = [] then None
          else let s = remove_spaces n;
                   s = (if s \<noteq> [] \<and> is_sign (hd s) then s else CHR ''+'' # s)
               in (case py_float s of
                     None \<Rightarrow> None
                   | Some v \<Rightarrow> if fgt (fabs v) ANGLE_LIMIT_ABS then None else Some s))"

definition at_end :: "string \<Rightarrow> bool" where
  \<comment> \<open>\<open>$\<close>: the end of the string, or a newline that ends it\<close>
  "at_end r = (r = [] \<or> r = [CHR 0x0A])"

definition depth_shape :: "string \<Rightarrow> bool" where
  \<comment> \<open>\<open>re.match(r"^\d+(\.\d+)?$", s)\<close>\<close>
  "depth_shape s =
     (let ds = takeWhile is_digit s; r = dropWhile is_digit s
      in ds \<noteq> [] \<and>
         (at_end r \<or>
          (case r of [] \<Rightarrow> False
           | c # r' \<Rightarrow> c = CHR ''.'' \<and> takeWhile is_digit r' \<noteq> [] \<and>
                       at_end (dropWhile is_digit r'))))"

definition drop_sign :: "string \<Rightarrow> string" where
  \<comment> \<open>\<open>if s.startswith(("+", "-")): s = s[1:]\<close>\<close>
  "drop_sign s = (case s of [] \<Rightarrow> [] | c # r \<Rightarrow> if is_sign c then r else s)"

definition depth_valid :: "string option \<Rightarrow> bool" where
  "depth_valid num_str =
     (case num_str of None \<Rightarrow> False
      | Some n \<Rightarrow>
          if n = [] then False
          else let s = remove_spaces (drop_sign (py_strip n))
               in if \<not> depth_shape s then False
                  else length (takeWhile (\<lambda>c. c \<noteq> CHR ''.'') s) \<le> 3)"

definition frac_part :: "pyfloat \<Rightarrow> pyfloat" where
  \<comment> \<open>\<open>abs(v - int(v))\<close>; \<open>int\<close> truncates towards zero, and raises on an infinity or
      a NaN, which no candidate of \<open>repair_temp\<close> is (they are kept as they are here)\<close>
  "frac_part v =
     (case v of
        Fin r \<Rightarrow> fabs (fsub v (float_of_int (if 0 \<le> r then \<lfloor>r\<rfloor> else \<lceil>r\<rceil>)))
      | _ \<Rightarrow> v)"

definition repair_temp :: "string option \<Rightarrow> pyfloat option" where
  \<comment> \<open>\<open>float\<close> of two digits, a point and a digit does not fail, and every candidate
      is a \<open>float\<close>, so the test \<open>isinstance(v, float)\<close> is left out\<close>
  "repair_temp num_str =
     (case num_str of None \<Rightarrow> None
      | Some n \<Rightarrow>
          if n = [] then None
          else let s = remove_spaces (drop_sign (py_strip n));
                   s = filter (\<lambda>c. is_digit c \<or> c = CHR ''.'') s
               in if s = [] then None
                  else if contains ''.'' s then
                    (case py_float s of
                       None \<Rightarrow> None
                     | Some v \<Rightarrow> if fle v TEMP_MAX then Some v else None)
                  else if \<not> py_isdigit s then None
                  else if length s \<le> 2 then
                    (let v = float_of_int (digits_val s)
                     in if fle v TEMP_MAX then Some v else None)
                  else
                    (let candidates =
                           (if 3 \<le> length s
                            then [float_of_int (digits_val (take 2 s)),
                                  float_of_int (digits_val (drop (length s - 2) s))]
                            else []) @
                           (if length s = 3
                            then (case py_float (take 2 s @ ''.'' @ [s ! 2]) of
                                    None \<Rightarrow> [] | Some v \<Rightarrow> [v])
                            else []);
                         valid = filter (\<lambda>c. fle c TEMP_MAX) candidates
                     in case valid of
                          [] \<Rightarrow> None
                        | v0 # vs \<Rightarrow>
                            (case filter (\<lambda>v. fgt (frac_part v) (round_double (1 / 10 ^ 9))) valid of
                               d # _ \<Rightarrow> Some d
                             | [] \<Rightarrow> Some (py_min v0 vs))))"

section \<open>Candidate scorer\<close>

definition score_key :: "string \<Rightarrow> pyfloat \<Rightarrow> pyfloat" where
  "score_key txt score =
     (let t = remove_spaces txt;
          bonus = Fin 0;
          bonus = (if (case extract_num_str t of None \<Rightarrow> False | Some m \<Rightarrow> m \<noteq> [])
                   then fadd bonus (round_double (5 / 100)) else bonus);
          bonus = (if contains ''.'' t then fadd bonus (round_double (5 / 100)) else bonus);
          bonus = (if sign_first t then fadd bonus (round_double (8 / 100)) else bonus)
      in fadd score bonus)"

section \<open>Recognizer, images and readings\<close>

text \<open>
  The recognizer and the pixel filters are outside the program text that is modelled.
  A \<open>reader\<close> stands for \<open>ocr_once(rec_model, enhance_for_ocr(rotate_gray(img, rot)))\<close>:
  the text and the confidence that the recognizer gives for an image at a rotation,
  the same at every call.
\<close>

type_synonym 'img reader = "int \<Rightarrow> 'img \<Rightarrow> string \<times> pyfloat"

text \<open>The dictionaries \<open>{"sr": ..., "v7": ..., "v8": ...}\<close> of one field.\<close>

record 'img imgs =
  sr :: 'img
  v7 :: 'img
  v8 :: 'img

definition items :: "'img imgs \<Rightarrow> (string \<times> 'img) list" where
  \<comment> \<open>\<open>imgs.items()\<close>, in insertion order\<close>
  "items d = [(''sr'', sr d), (''v7'', v7 d), (''v8'', v8 d)]"

text \<open>The dictionaries \<open>{"src": ..., "txt": ..., "sc": ...}\<close>.\<close>

record reading =
  src :: string
  txt' :: string
  sc :: pyfloat

section \<open>Rotation selector\<close>

fun probe_loop :: "'img reader \<Rightarrow> int \<Rightarrow> (string \<times> 'img) list \<Rightarrow> string \<times> pyfloat \<Rightarrow> string \<times> pyfloat" where
  \<comment> \<open>the inner loop of \<open>choose_rotation\<close> over the angle images; \<open>best\<close> is the pair
      of \<open>txt\<close> and \<open>sc\<close>\<close>
  "probe_loop rd rot [] best = best"
| "probe_loop rd rot (si # rest) best =
     (let (t, s) = rd rot (snd si)
      in probe_loop rd rot rest
           (if fgt (score_key t s) (score_key (fst best) (snd best)) then (t, s) else best))"

definition probe :: "'img reader \<Rightarrow> 'img imgs \<Rightarrow> int \<Rightarrow> string \<times> pyfloat" where
  "probe rd angle_imgs rot = probe_loop rd rot (items angle_imgs) ([], Fin 0)"

fun hint_loop :: "(string \<Rightarrow> bool) \<Rightarrow> 'img reader \<Rightarrow> int \<Rightarrow> (string \<times> 'img) list \<Rightarrow> pyfloat \<Rightarrow> pyfloat" where
  \<comment> \<open>one of the two inner loops of the hint scores, with its hint test\<close>
  "hint_loop hint rd rot [] sc_sum = sc_sum"
| "hint_loop hint rd rot (si # rest) sc_sum =
     (let (t, s) = rd rot (snd si)
      in hint_loop hint rd rot rest
           (if hint t then fadd sc_sum (fadd s (round_double (15 / 100))) else sc_sum))"

definition hint_score :: "'img reader \<Rightarrow> 'img imgs \<Rightarrow> 'img imgs \<Rightarrow> int \<Rightarrow> pyfloat" where
  "hint_score rd temp_imgs depth_imgs rot =
     hint_loop has_depth_hint rd rot (items depth_imgs)
       (hint_loop has_temp_hint rd rot (items temp_imgs) (Fin 0))"

definition choose_rotation :: "'img reader \<Rightarrow> 'img imgs \<Rightarrow> 'img imgs \<Rightarrow> 'img imgs \<Rightarrow> int \<times> string" where
  \<comment> \<open>\<open>max\<close> over \<open>ROTATIONS\<close>, and over the keys of \<open>hint_scores\<close>, which are
      \<open>ROTATIONS\<close> in the same order, starts from the head of that list\<close>
  "choose_rotation rd angle_imgs temp_imgs depth_imgs =
     (let pr = probe rd angle_imgs;
          sign_rots = filter (\<lambda>r. sign_first (fst (pr r))) ROTATIONS
      in case sign_rots of
           r # rs \<Rightarrow> (py_max_key (\<lambda>r. snd (pr r)) r rs, ''angle_sign_first'')
         | [] \<Rightarrow>
             (let hint_scores = hint_score rd temp_imgs depth_imgs;
                  best_rot = py_max_key hint_scores (hd ROTATIONS) (tl ROTATIONS)
              in if fgt (hint_scores best_rot) (Fin 0) then (best_rot, ''unit_hint'')
                 else (py_max_key (\<lambda>r. snd (pr r)) (hd ROTATIONS) (tl ROTATIONS),
                       ''fallback_best_angle_score'')))"

section \<open>Field reader\<close>

fun read_loop :: "'img reader \<Rightarrow> int \<Rightarrow> (string \<times> 'img) list \<Rightarrow> reading \<Rightarrow> reading" where
  "read_loop rd rot [] best = best"
| "read_loop rd rot (si # rest) best =
     (let (t, s) = rd rot (snd si)
      in read_loop rd rot rest
           (if fgt (score_key t s) (score_key (txt' best) (sc best))
            then \<lparr>src = fst si, txt' = t, sc = s\<rparr> else best))"

definition read_field_best :: "'img reader \<Rightarrow> 'img imgs \<Rightarrow> int \<Rightarrow> reading" where
  \<comment> \<open>\<open>for src in ["sr", "v7", "v8"]: img = imgs[src]\<close> visits the items in order\<close>
  "read_field_best rd imgs rot =
     read_loop rd rot (items imgs) \<lparr>src = ''none'', txt' = [], sc = Fin 0\<rparr>"

section \<open>Group evaluator\<close>

datatype json =
  JStr string | JNum pyfloat | JInt int | JList "json list" | JObj "(string \<times> json) list"

definition required :: "string list" where
  "required =
     [''angle_sr'', ''angle_v7'', ''angle_v8'',
      ''temp_sr'', ''temp_v7'', ''temp_v8'',
      ''depth_sr'', ''depth_v7'', ''depth_v8'']"

fun load_images :: "('p \<Rightarrow> 'img option) \<Rightarrow> (string \<rightharpoonup> 'p) \<Rightarrow> string list \<Rightarrow> (string \<rightharpoonup> 'img) \<Rightarrow> (string \<rightharpoonup> 'img) option" where
  \<comment> \<open>the loop over \<open>required\<close> that decodes every image and stops at the first
      that \<open>imread_any_gray\<close> cannot decode; \<open>None\<close> is \<open>imgs = None\<close>. The keys are
      in \<open>d\<close> when the loop runs, so \<open>d[k]\<close> is found\<close>
  "load_images imread d [] imgs = Some imgs"
| "load_images imread d (k # ks) imgs =
     (case Option.bind (d k) imread of
        None \<Rightarrow> None
      | Some g \<Rightarrow> load_images imread d ks (imgs(k \<mapsto> g)))"

definition field_imgs :: "(string \<rightharpoonup> 'img) \<Rightarrow> string \<Rightarrow> 'img imgs option" where
  \<comment> \<open>\<open>{"sr": imgs[f + "_sr"], "v7": imgs[f + "_v7"], "v8": imgs[f + "_v8"]}\<close>;
      \<open>None\<close> is the \<open>KeyError\<close> of a lookup\<close>
  "field_imgs imgs f =
     (case (imgs (f @ ''_sr''), imgs (f @ ''_v7''), imgs (f @ ''_v8'')) of
        (Some a, Some b, Some c) \<Rightarrow> Some \<lparr>sr = a, v7 = b, v8 = c\<rparr>
      | _ \<Rightarrow> None)"

text \<open>What \<open>main\<close> computes for a group between the choice of the rotation and the status.\<close>

record evaluation =
  rot :: int
  rot_reason :: string
  angle_best :: reading
  temp_best :: reading
  depth_best :: reading
  angle_final :: "string option"
  temp_final :: "pyfloat option"
  depth_final :: "string option"
  mistakes :: "string list"
  status :: string

definition evaluate :: "'img reader \<Rightarrow> 'img imgs \<Rightarrow> 'img imgs \<Rightarrow> 'img imgs \<Rightarrow> evaluation" where
  "evaluate rd angle_imgs temp_imgs depth_imgs =
     (let (rot, rot_reason) = choose_rotation rd angle_imgs temp_imgs depth_imgs;
          angle_best = read_field_best rd angle_imgs rot;
          temp_best = read_field_best rd temp_imgs rot;
          depth_best = read_field_best rd depth_imgs rot;
          angle_num = extract_num_str (txt' angle_best);
          temp_num = extract_num_str (txt' temp_best);
          depth_num = extract_num_str (txt' depth_best);
          angle_final = normalize_angle angle_num;
          temp_final = repair_temp temp_num;
          depth_final = (if depth_valid depth_num then depth_num else None);
          mistakes =
            (if angle_final = None then [''angle_invalid''] else []) @
            (if temp_final = None then [''temp_invalid''] else []) @
            (if depth_final = None then [''depth_invalid''] else []) @
            (if flt (sc angle_best) SCORE_THRESHOLD then [''angle_low_score''] else []) @
            (if flt (sc temp_best) SCORE_THRESHOLD then [''temp_low_score''] else []) @
            (if flt (sc depth_best) SCORE_THRESHOLD then [''depth_low_score''] else []);
          status = (if mistakes = [] then ''OK'' else ''MISTAKE'')
      in \<lparr>rot = rot, rot_reason = rot_reason,
          angle_best = angle_best, temp_best = temp_best, depth_best = depth_best,
          angle_final = angle_final, temp_final = temp_final, depth_final = depth_final,
          mistakes = mistakes, status = status\<rparr>)"

definition result_record :: "string \<Rightarrow> evaluation \<Rightarrow> json" where
  \<comment> \<open>the dictionary \<open>rec\<close> of a group that was evaluated\<close>
  "result_record gid ev =
     JObj [(''id'', JStr gid),
           (''status'', JStr (status ev)),
           (''rotation'', JInt (rot ev)),
           (''rotation_reason'', JStr (rot_reason ev)),
           (''values'', JObj
              [(''temp'', case temp_final ev of Some v \<Rightarrow> JNum v | None \<Rightarrow> JStr ''UNREADABLE''),
               (''depth'', case depth_final ev of Some s \<Rightarrow> JStr s | None \<Rightarrow> JStr ''UNREADABLE''),
               (''angle'', case angle_final ev of Some s \<Rightarrow> JStr s | None \<Rightarrow> JStr ''UNREADABLE'')]),
           (''sources'', JObj
              [(''temp'', JStr (src (temp_best ev))),
               (''depth'', JStr (src (depth_best ev))),
               (''angle'', JStr (src (angle_best ev)))]),
           (''scores'', JObj
              [(''temp'', JNum (sc (temp_best ev))),
               (''depth'', JNum (sc (depth_best ev))),
               (''angle'', JNum (sc (angle_best ev)))]),
           (''raw_text'', JObj
              [(''temp'', JStr (txt' (temp_best ev))),
               (''depth'', JStr (txt' (depth_best ev))),
               (''angle'', JStr (txt' (angle_best ev)))]),
           (''mistakes'', JList (map JStr (mistakes ev)))]"

definition process_group :: "'img reader \<Rightarrow> ('p \<Rightarrow> 'img option) \<Rightarrow> string \<Rightarrow> (string \<rightharpoonup> 'p) \<Rightarrow> json option" where
  \<comment> \<open>the body of the loop of \<open>main\<close> over the groups: the record written for the group
      \<open>gid\<close> with the image paths \<open>d\<close>. \<open>None\<close> is a \<open>KeyError\<close> in the three
      dictionaries of images\<close>
  "process_group rd imread gid d =
     (let missing = filter (\<lambda>k. d k = None) required
      in if missing \<noteq> [] then
           Some (JObj [(''id'', JStr gid), (''status'', JStr ''MISTAKE''),
                       (''reason'', JStr ''missing_files''),
                       (''missing'', JList (map JStr missing))])
         else
           (case load_images imread d required Map.empty of
              None \<Rightarrow>
                Some (JObj [(''id'', JStr gid), (''status'', JStr ''MISTAKE''),
                            (''reason'', JStr ''cant_read_image'')])
            | Some imgs \<Rightarrow>
                (case (field_imgs imgs ''angle'', field_imgs imgs ''temp'',
                       field_imgs imgs ''depth'') of
                   (Some angle_imgs, Some temp_imgs, Some depth_imgs) \<Rightarrow>
                     Some (result_record gid (evaluate rd angle_imgs temp_imgs depth_imgs))
                 | _ \<Rightarrow> None)))"


subsection \<open>Reading a record\<close>

fun jget :: "json \<Rightarrow> string \<Rightarrow> json option" where
  "jget (JObj kvs) k = map_of kvs k"
| "jget _ k = None"


fun jpath :: "json \<Rightarrow> string list \<Rightarrow> json option" where
  "jpath j [] = Some j"
| "jpath j (k # ks) = (case jget j k of None \<Rightarrow> None | Some v \<Rightarrow> jpath v ks)"

definition at_path :: "json option \<Rightarrow> string list \<Rightarrow> json option" where
  \<comment> \<open>the entry at a path of a record, if there is a record and the entry\<close>
  "at_path r ks = (case r of None \<Rightarrow> None | Some j \<Rightarrow> jpath j ks)"

section \<open>The specification's words\<close>

text \<open>
  The definitions of this section are not translated from the source. They say, in the
  words of the specification, what the theorems below compare the source with.
\<close>

definition numeric_str :: "string \<Rightarrow> bool" where
  \<comment> \<open>an optionally signed decimal number: sign?, digits, optional point and digits\<close>
  "numeric_str s =
     (let b = drop_sign s; ds = takeWhile is_digit b; r = dropWhile is_digit b
      in ds \<noteq> [] \<and>
         (r = [] \<or>
          (case r of [] \<Rightarrow> False | c # f \<Rightarrow> c = CHR ''.'' \<and> f \<noteq> [] \<and> list_all is_digit f)))"

definition with_sign :: "string \<Rightarrow> string" where
  \<comment> \<open>a leading \<open>+\<close> re-inserted if no sign is present\<close>
  "with_sign s = (case s of [] \<Rightarrow> ''+'' | c # _ \<Rightarrow> if is_sign c then s else CHR ''+'' # s)"

definition two_digits :: "char \<Rightarrow> char \<Rightarrow> int" where
  \<comment> \<open>two digits as an integer\<close>
  "two_digits a b = 10 * digit_val a + digit_val b"

definition spec_temp_candidates :: "string \<Rightarrow> pyfloat list" where
  \<comment> \<open>for a string of three digits or more: the first two digits as an integer, the
      last two digits as an integer and, only when the length is exactly 3, the first
      two digits plus the third digit as a decimal\<close>
  "spec_temp_candidates s =
     [float_of_int (two_digits (s ! 0) (s ! 1)),
      float_of_int (two_digits (s ! (length s - 2)) (s ! (length s - 1)))] @
     (if length s = 3
      then [round_double (of_int (two_digits (s ! 0) (s ! 1)) + of_int (digit_val (s ! 2)) / 10)]
      else [])"

definition spec_has_fraction :: "pyfloat \<Rightarrow> bool" where
  \<comment> \<open>a fractional part that is not zero\<close>
  "spec_has_fraction v = (case v of Fin r \<Rightarrow> of_int \<lfloor>r\<rfloor> \<noteq> r | _ \<Rightarrow> False)"

section \<open>Sample inputs\<close>

text \<open>
  Groups and recognizers for the examples below. An image is named by its key, a path
  decodes to the image of the same name, and \<open>sample_files\<close> holds the nine required
  keys.
\<close>

definition sample_files :: "string \<rightharpoonup> string" where
  "sample_files = map_of (map (\<lambda>k. (k, k)) required)"

definition sample_imread :: "string \<Rightarrow> string option" where
  "sample_imread p = Some p"

definition blank_reader :: "string reader" where
  \<comment> \<open>the recognizer reads nothing: \<open>ocr_once\<close> gives \<open>("", 0.0)\<close> every time\<close>
  "blank_reader r img = ([], Fin 0)"

definition clear_reader :: "string reader" where
  \<comment> \<open>the recognizer reads every image with confidence 1.0, the same at every
      rotation\<close>
  "clear_reader r img =
     (if prefix ''angle'' img then (''+5'', Fin 1)
      else if prefix ''temp'' img then (''37.5C'', Fin 1)
      else (''-5m'', Fin 1))"

section \<open>Groups with every image\<close>

text \<open>
  The words of the claims about a group whose nine required images are present and
  decodable: \<open>complete\<close> says so of the paths \<open>d\<close> of a group, and \<open>decoded\<close> is then the
  dictionary of the three images of a field.
\<close>

definition complete :: "('p \<Rightarrow> 'img option) \<Rightarrow> (string \<rightharpoonup> 'p) \<Rightarrow> bool" where
  "complete imread d = list_all (\<lambda>k. Option.bind (d k) imread \<noteq> None) required"

definition decoded :: "('p \<Rightarrow> 'img option) \<Rightarrow> (string \<rightharpoonup> 'p) \<Rightarrow> string \<Rightarrow> 'img imgs" where
  "decoded imread d f =
     \<lparr>sr = the (Option.bind (d (f @ ''_sr'')) imread),
      v7 = the (Option.bind (d (f @ ''_v7'')) imread),
      v8 = the (Option.bind (d (f @ ''_v8'')) imread)\<rparr>"

definition group_evaluation :: "'img reader \<Rightarrow> ('p \<Rightarrow> 'img option) \<Rightarrow> (string \<rightharpoonup> 'p) \<Rightarrow> evaluation" where
  \<comment> \<open>what \<open>main\<close> computes for such a group\<close>
  "group_evaluation rd imread d =
     evaluate rd (decoded imread d ''angle'') (decoded imread d ''temp'')
       (decoded imread d ''depth'')"

definition reading_of :: "'img reader \<Rightarrow> int \<Rightarrow> string \<times> 'img \<Rightarrow> reading" where
  \<comment> \<open>the reading of one source variant, an item of the images of a field, at a
      rotation\<close>
  "reading_of rd r si = \<lparr>src = fst si, txt' = fst (rd r (snd si)), sc = snd (rd r (snd si))\<rparr>"

definition reading_score :: "reading \<Rightarrow> pyfloat" where
  \<comment> \<open>the score of a reading, of its text and confidence\<close>
  "reading_score b = score_key (txt' b) (sc b)"

definition upside_reader :: "string reader" where
  \<comment> \<open>a recognizer that reads a signed number with confidence 0.5 at 180 degrees, and
      an unsigned one with confidence 1.0 at every other rotation\<close>
  "upside_reader r img = (if r = 180 then (''-12.5'', Fin (1 / 2)) else (''125'', Fin 1))"



section \<open>Properties of the floats\<close>

lemma floor_rat_numeral: "\<lfloor>numeral a / numeral b :: rat\<rfloor> = numeral a div numeral b"
  by (metis floor_divide_of_int_eq of_int_numeral)

lemma ceiling_rat_numeral: "\<lceil>numeral a / numeral b :: rat\<rceil> = - (- numeral a div numeral b)"
  by (metis ceiling_def floor_divide_of_int_eq minus_divide_left of_int_minus of_int_numeral)

lemma bitlen_pos: "0 < n \<Longrightarrow> 1 \<le> bitlen n"
  using bitlen_eq_zero_iff [of n] bitlen_nonneg [of n] by linarith

lemma ilog2_bounds:
  assumes "0 < a"
  shows "2 powi (ilog2 a) \<le> a \<and> a < 2 powi (ilog2 a + 1)"
proof (cases "1 \<le> a")
  case True
  define n where "n = \<lfloor>a\<rfloor>"
  have n1: "0 < n" using True unfolding n_def by linarith
  have bl: "1 \<le> bitlen n" using n1 by (rule bitlen_pos)
  from bitlen_bounds [OF n1]
  have b1: "2 ^ nat (bitlen n - 1) \<le> n" and b2: "n < 2 ^ nat (bitlen n)" by auto
  have e: "ilog2 a = bitlen n - 1" using True by (simp add: ilog2_def n_def)
  have "(2::rat) powi (bitlen n - 1) = of_int (2 ^ nat (bitlen n - 1))"
    using bl by (simp add: power_int_def)
  also have "\<dots> \<le> of_int n" using b1 by (simp only: of_int_le_iff)
  also have "\<dots> \<le> a" unfolding n_def by simp
  finally have lo: "2 powi (ilog2 a) \<le> a" using e by simp
  have "a < of_int (n + 1)" unfolding n_def by simp linarith
  also have "\<dots> \<le> of_int (2 ^ nat (bitlen n))" using b2 by (simp only: of_int_le_iff)
  also have "\<dots> = (2::rat) powi (bitlen n)" using bl by (simp add: power_int_def)
  finally have "a < 2 powi (ilog2 a + 1)" using e by simp
  with lo show ?thesis by simp
next
  case False
  define b where "b = 1 / a"
  define m where "m = \<lceil>b\<rceil> - 1"
  have b1: "1 < b" using False assms unfolding b_def by simp
  have m1: "0 < m" using b1 unfolding m_def by linarith
  have bl: "1 \<le> bitlen m" using m1 by (rule bitlen_pos)
  from bitlen_bounds [OF m1]
  have c1: "2 ^ nat (bitlen m - 1) \<le> m" and c2: "m < 2 ^ nat (bitlen m)" by auto
  have e: "ilog2 a = - bitlen m" using False by (simp add: ilog2_def m_def b_def)
  have "b \<le> of_int (m + 1)" unfolding m_def by simp
  also have "\<dots> \<le> of_int (2 ^ nat (bitlen m))" using c2 by (simp only: of_int_le_iff)
  finally have ub: "b \<le> 2 ^ nat (bitlen m)" by simp
  have "(2::rat) powi (- bitlen m) = 1 / 2 ^ nat (bitlen m)"
    using bl by (simp add: power_int_def power_one_over inverse_eq_divide)
  also have "\<dots> \<le> 1 / b" using ub b1 by (simp add: frac_le)
  finally have lo: "2 powi (ilog2 a) \<le> a" using e assms by (simp add: b_def)
  have "of_int (2 ^ nat (bitlen m - 1)) \<le> (of_int m :: rat)" using c1 by (simp only: of_int_le_iff)
  also have "of_int m < b" unfolding m_def by simp linarith
  finally have lb: "2 ^ nat (bitlen m - 1) < b" by simp
  have "a = 1 / b" using assms by (simp add: b_def)
  also have "\<dots> < 1 / 2 ^ nat (bitlen m - 1)" using lb by (simp add: frac_less2)
  also have "\<dots> = (2::rat) powi (1 - bitlen m)"
    using bl by (simp add: power_int_def power_one_over inverse_eq_divide nat_diff_distrib)
  finally have "a < 2 powi (ilog2 a + 1)" using e by simp
  with lo show ?thesis by simp
qed

lemma two_powi_less_cancel: "(2::rat) powi a < 2 powi b \<Longrightarrow> a < b"
proof (rule ccontr)
  assume h: "(2::rat) powi a < 2 powi b" and "\<not> a < b"
  then have "b \<le> a" by simp
  then have "(2::rat) powi b \<le> 2 powi a" by (rule power_int_increasing) simp
  with h show False by simp
qed

lemma two_powi_pos: "0 < (2::rat) powi e"
  by (simp add: power_int_def)

lemma two_powi_nat: "0 \<le> e \<Longrightarrow> (2::rat) powi e = of_int (2 ^ nat e)"
  by (simp add: power_int_def)

lemma ilog2_eqI:
  assumes "0 < a" "2 powi e \<le> a" "a < 2 powi (e + 1)"
  shows "ilog2 a = e"
proof -
  from ilog2_bounds [OF assms(1)]
  have l: "2 powi (ilog2 a) \<le> a" and u: "a < 2 powi (ilog2 a + 1)" by auto
  from l assms(3) have "(2::rat) powi (ilog2 a) < 2 powi (e + 1)" by simp
  then have 1: "ilog2 a < e + 1" by (rule two_powi_less_cancel)
  from assms(2) u have "(2::rat) powi e < 2 powi (ilog2 a + 1)" by simp
  then have 2: "e < ilog2 a + 1" by (rule two_powi_less_cancel)
  from 1 2 show ?thesis by simp
qed

lemma rhe_lower: "of_int k \<le> y \<Longrightarrow> k \<le> round_half_even y"
proof -
  assume "of_int k \<le> y"
  then have "k \<le> \<lfloor>y\<rfloor>" by (simp add: le_floor_iff)
  then show ?thesis by (simp add: round_half_even_def Let_def)
qed

lemma rhe_upper:
  assumes "y \<le> of_int k"
  shows "round_half_even y \<le> k"
proof -
  have f: "\<lfloor>y\<rfloor> \<le> k" using assms by (simp add: floor_le_iff)
  show ?thesis
  proof (cases "y - of_int \<lfloor>y\<rfloor> < 1 / 2")
    case True
    then show ?thesis using f by (simp add: round_half_even_def Let_def)
  next
    case False
    then have "of_int \<lfloor>y\<rfloor> < y" by simp
    with assms have "(of_int \<lfloor>y\<rfloor> :: rat) < of_int k" by simp
    then have "\<lfloor>y\<rfloor> < k" by (simp only: of_int_less_iff)
    then show ?thesis by (simp add: round_half_even_def Let_def)
  qed
qed

lemma rhe_of_int: "round_half_even (of_int k) = k"
  by (simp add: round_half_even_def Let_def)

lemma round_double_pos:
  "0 < x \<Longrightarrow>
   round_double x =
     (let e = max (ilog2 x) (- 1022); q = 2 powi (e - 52);
          r = of_int (round_half_even (x / q)) * q
      in if 2 ^ 1024 \<le> r then PInf else Fin r)"
  by (simp add: round_double_def Let_def)

lemma round_double_minus: "round_double (- x) = fneg (round_double x)"
  by (cases "x = 0"; cases "0 < x") (auto simp: round_double_def Let_def)

lemma round_double_ge:
  assumes "2 powi k \<le> x" "- 1022 \<le> k"
  shows "round_double x = PInf \<or> (\<exists>r. round_double x = Fin r \<and> 2 powi k \<le> r)"
proof -
  have x0: "0 < x" using assms(1) two_powi_pos [of k] by linarith
  define e where "e = ilog2 x"
  define q :: rat where "q = 2 powi (e - 52)"
  define m where "m = round_half_even (x / q)"
  from ilog2_bounds [OF x0]
  have l: "2 powi e \<le> x" and u: "x < 2 powi (e + 1)" by (auto simp: e_def)
  from assms(1) u have "(2::rat) powi k < 2 powi (e + 1)" by simp
  then have ke: "k \<le> e" using two_powi_less_cancel [of k "e + 1"] by simp
  then have emax: "max (ilog2 x) (- 1022) = e" using assms(2) by (simp add: e_def)
  have q0: "0 < q" by (simp add: q_def two_powi_pos)
  have "(2::rat) powi e = 2 powi (52 + (e - 52))" by simp
  also have "\<dots> = 2 powi 52 * 2 powi (e - 52)" by (rule power_int_add) simp
  finally have eq: "of_int (2 ^ 52) * q = 2 powi e" by (simp add: q_def)
  then have "of_int (2 ^ 52) * q \<le> x" using l by simp
  then have "of_int (2 ^ 52) \<le> x / q" using q0 by (simp add: pos_le_divide_eq)
  then have "2 ^ 52 \<le> m" unfolding m_def by (rule rhe_lower)
  then have "(of_int (2 ^ 52) :: rat) \<le> of_int m" by (simp only: of_int_le_iff)
  then have "of_int (2 ^ 52) * q \<le> of_int m * q" using q0 by (simp only: mult_le_cancel_right_pos)
  then have "2 powi e \<le> of_int m * q" using eq by simp
  moreover have "(2::rat) powi k \<le> 2 powi e" using ke by (intro power_int_increasing) simp_all
  ultimately have r: "2 powi k \<le> of_int m * q" by simp
  have "round_double x = (if 2 ^ 1024 \<le> of_int m * q then PInf else Fin (of_int m * q))"
    using x0 emax by (simp add: round_double_pos Let_def m_def q_def)
  with r show ?thesis by auto
qed

lemma round_double_le:
  assumes "0 < x" "x \<le> 2 powi k" "- 1022 \<le> k" "k \<le> 1023"
  shows "\<exists>r. round_double x = Fin r \<and> 0 \<le> r \<and> r \<le> 2 powi k"
proof -
  define e where "e = max (ilog2 x) (- 1022)"
  define q :: rat where "q = 2 powi (e - 52)"
  define m where "m = round_half_even (x / q)"
  from ilog2_bounds [OF assms(1)]
  have l: "2 powi (ilog2 x) \<le> x" and u: "x < 2 powi (ilog2 x + 1)" by auto
  from l assms(2) have "(2::rat) powi (ilog2 x) < 2 powi (k + 1)"
    using power_int_strict_increasing [of k "k + 1" "2::rat"] by simp
  then have "ilog2 x \<le> k" using two_powi_less_cancel [of "ilog2 x" "k + 1"] by simp
  then have ek: "e \<le> k" using assms(3) by (simp add: e_def)
  have q0: "0 < q" by (simp add: q_def two_powi_pos)
  have "(2::rat) powi k = 2 powi ((k - e + 52) + (e - 52))" by simp
  also have "\<dots> = 2 powi (k - e + 52) * 2 powi (e - 52)" by (rule power_int_add) simp
  also have "\<dots> = of_int (2 ^ nat (k - e + 52)) * q"
    using ek by (simp only: q_def two_powi_nat)
  finally have eq: "of_int (2 ^ nat (k - e + 52)) * q = 2 powi k" by simp
  then have "x \<le> of_int (2 ^ nat (k - e + 52)) * q" using assms(2) by simp
  then have "x / q \<le> of_int (2 ^ nat (k - e + 52))" using q0 by (simp add: pos_divide_le_eq)
  then have "m \<le> 2 ^ nat (k - e + 52)" unfolding m_def by (rule rhe_upper)
  then have "(of_int m :: rat) \<le> of_int (2 ^ nat (k - e + 52))" by (simp only: of_int_le_iff)
  then have "of_int m * q \<le> of_int (2 ^ nat (k - e + 52)) * q"
    using q0 by (simp only: mult_le_cancel_right_pos)
  then have r: "of_int m * q \<le> 2 powi k" using eq by simp
  have "(of_int 0 :: rat) \<le> x / q" using assms(1) q0 by simp
  then have "0 \<le> m" unfolding m_def by (rule rhe_lower)
  then have r0: "0 \<le> of_int m * q" using q0 by simp
  have "(2::rat) powi k \<le> 2 powi 1023" using assms(4) by (intro power_int_increasing) simp_all
  also have "\<dots> < 2 ^ 1024" by simp
  finally have "\<not> 2 ^ 1024 \<le> of_int m * q" using r by simp
  then have "round_double x = Fin (of_int m * q)"
    using assms(1) by (simp add: round_double_pos Let_def m_def q_def e_def)
  with r r0 show ?thesis by simp
qed

lemma round_double_eval:
  assumes "0 < x" "2 powi e \<le> x" "x < 2 powi (e + 1)" "- 1022 \<le> e" "e < 1023"
  shows "round_double x = Fin (of_int (round_half_even (x / 2 powi (e - 52))) * 2 powi (e - 52))"
proof -
  have il: "ilog2 x = e" using assms(1-3) by (rule ilog2_eqI)
  have "x \<le> 2 powi (e + 1)" using assms(3) by simp
  from round_double_le [OF assms(1) this] assms(4,5)
  obtain r where "round_double x = Fin r" by auto
  then show ?thesis
    using assms(1,4) il by (simp add: round_double_pos Let_def split: if_splits)
qed

lemma round_double_of_int:
  assumes "\<bar>n\<bar> < 2 ^ 53"
  shows "round_double (of_int n) = Fin (of_int n)"
proof -
  have pos: "round_double (of_int k) = Fin (of_int k)" if k: "0 < k" "k < 2 ^ 53" for k
  proof -
    define e where "e = ilog2 (of_int k)"
    have k0: "(0::rat) < of_int k" using k by simp
    from ilog2_bounds [OF k0]
    have l: "2 powi e \<le> (of_int k :: rat)" and u: "(of_int k :: rat) < 2 powi (e + 1)"
      by (auto simp: e_def)
    have "(of_int k :: rat) < of_int (2 ^ 53)" using k(2) by (simp only: of_int_less_iff)
    then have "(2::rat) powi e < 2 powi 53" using l by simp
    then have e53: "e < 53" by (rule two_powi_less_cancel)
    have "(1::rat) \<le> of_int k" using k(1) by (simp add: int_one_le_iff_zero_less)
    then have "(2::rat) powi 0 < 2 powi (e + 1)" using u by simp
    then have e0: "0 \<le> e" using two_powi_less_cancel [of 0 "e + 1"] by simp
    have q: "(2::rat) powi (e - 52) = 1 / of_int (2 ^ nat (52 - e))"
      using e53 power_int_minus_divide [of "2::rat" "52 - e"] by (simp add: two_powi_nat)
    have "round_half_even (of_int k / 2 powi (e - 52)) = k * 2 ^ nat (52 - e)"
      using rhe_of_int [of "k * 2 ^ nat (52 - e)"] by (simp add: q)
    moreover have "(of_int k :: rat) \<le> 2 powi (e + 1)" using u by simp
    moreover have "e < 1023" "- 1022 \<le> e" using e53 e0 by simp_all
    ultimately show ?thesis
      using round_double_eval [OF k0 l u] by (simp add: q)
  qed
  consider "n = 0" | "0 < n" | "n < 0" by linarith
  then show ?thesis
  proof cases
    case 1
    then show ?thesis by (simp add: round_double_def)
  next
    case 2
    then show ?thesis using assms pos by simp
  next
    case 3
    then have "round_double (of_int (- n)) = Fin (of_int (- n))" using assms pos [of "- n"] by simp
    then have "fneg (round_double (of_int n)) = Fin (- of_int n)"
      using round_double_minus [of "of_int n"] by simp
    then show ?thesis by (cases "round_double (of_int n)") simp_all
  qed
qed

lemma rhe_error: "\<bar>of_int (round_half_even y) - y\<bar> \<le> 1 / 2"
proof -
  define f where "f = \<lfloor>y\<rfloor>"
  have b: "of_int f \<le> y" "y < of_int f + 1" unfolding f_def by linarith+
  consider "y - of_int f < 1 / 2" | "1 / 2 < y - of_int f" | "y - of_int f = 1 / 2"
    by linarith
  then show ?thesis
  proof cases
    case 1
    then have "round_half_even y = f" by (simp add: round_half_even_def Let_def f_def)
    then show ?thesis using 1 b by simp
  next
    case 2
    then have "round_half_even y = f + 1" by (simp add: round_half_even_def Let_def f_def)
    then show ?thesis using 2 b by simp
  next
    case 3
    then have "round_half_even y = f \<or> round_half_even y = f + 1"
      by (simp add: round_half_even_def Let_def f_def)
    then show ?thesis using 3 by auto
  qed
qed

lemma round_double_near:
  assumes "0 < x" "x < 128"
  shows "\<exists>r. round_double x = Fin r \<and> \<bar>r - x\<bar> \<le> 1 / 2 ^ 47"
proof -
  define e where "e = max (ilog2 x) (- 1022)"
  define q :: rat where "q = 2 powi (e - 52)"
  define m where "m = round_half_even (x / q)"
  have x7: "x \<le> 2 powi 7" using assms(2) by simp
  from round_double_le [OF assms(1) x7] obtain r where r: "round_double x = Fin r" by auto
  then have rm: "r = of_int m * q"
    using assms(1) by (simp add: round_double_pos Let_def m_def q_def e_def split: if_splits)
  from ilog2_bounds [OF assms(1)] have "2 powi (ilog2 x) \<le> x" by simp
  with assms(2) have "(2::rat) powi (ilog2 x) < 2 powi 7" by simp
  then have "ilog2 x < 7" by (rule two_powi_less_cancel)
  then have e6: "e - 52 \<le> - 46" by (simp add: e_def)
  have q0: "0 < q" by (simp add: q_def two_powi_pos)
  have "q \<le> 2 powi (- 46)" unfolding q_def using e6 by (intro power_int_increasing) simp_all
  then have q46: "q \<le> 1 / 2 ^ 46" by (simp add: power_int_def power_one_over)
  have "\<bar>of_int m - x / q\<bar> \<le> 1 / 2" unfolding m_def by (rule rhe_error)
  then have "\<bar>of_int m - x / q\<bar> * q \<le> 1 / 2 * q" using q0 by (simp only: mult_le_cancel_right_pos)
  moreover have "(of_int m - x / q) * q = of_int m * q - x" using q0 by (simp add: field_simps)
  then have "\<bar>of_int m - x / q\<bar> * q = \<bar>of_int m * q - x\<bar>"
    using q0 abs_mult [of "of_int m - x / q" q] by simp
  ultimately have "\<bar>of_int m * q - x\<bar> \<le> q / 2" by simp
  also have "\<dots> \<le> 1 / 2 ^ 47" using q46 by simp
  finally show ?thesis using r rm by simp
qed

subsection \<open>The order of the floats\<close>

lemma flt_trans: "flt a b \<Longrightarrow> flt b c \<Longrightarrow> flt a c"
  by (cases a; cases b; cases c) simp_all

lemma flt_irrefl: "\<not> flt a a"
  by (cases a) simp_all

lemma flt_asym: "flt a b \<Longrightarrow> \<not> flt b a"
  using flt_trans [of a b a] flt_irrefl [of a] by blast

lemma flt_not_fle: "flt a b \<Longrightarrow> \<not> fle b a"
  by (cases a; cases b) simp_all

lemma flt_fle_trans: "flt a b \<Longrightarrow> fle b c \<Longrightarrow> flt a c"
  by (cases a; cases b; cases c) simp_all

lemma fle_iff_not_flt: "a \<noteq> NaN \<Longrightarrow> b \<noteq> NaN \<Longrightarrow> fle a b = (\<not> flt b a)"
  by (cases a; cases b) auto

lemma flt_not_NaN: "flt a b \<Longrightarrow> a \<noteq> NaN \<and> b \<noteq> NaN"
  by (cases a; cases b) simp_all

lemma fadd_not_NaN: "fadd a b \<noteq> NaN \<Longrightarrow> a \<noteq> NaN \<and> b \<noteq> NaN"
  by (cases a; cases b) simp_all

subsection \<open>The constants and the literals of the source\<close>

lemma TEMP_MAX_eq: "TEMP_MAX = Fin 80"
  using round_double_of_int [of 80] by (simp add: TEMP_MAX_def)

lemma ANGLE_LIMIT_ABS_eq: "ANGLE_LIMIT_ABS = Fin 100"
  using round_double_of_int [of 100] by (simp add: ANGLE_LIMIT_ABS_def)

lemma float_of_int_small: "\<bar>n\<bar> < 2 ^ 53 \<Longrightarrow> float_of_int n = Fin (of_int n)"
  by (simp add: float_of_int_def round_double_of_int)

lemma rd_eps: "round_double (1 / 10 ^ 9) = Fin (4835703278458517 / 4835703278458516698824704)"
  by (subst round_double_eval [where e = "- 30"])
     (simp_all add: power_int_def power_one_over round_half_even_def Let_def floor_rat_numeral)

lemma rd_963: "round_double (963 / 10) = Fin (6776510064309043 / 70368744177664)"
  by (subst round_double_eval [where e = 6])
     (simp_all add: power_int_def power_one_over round_half_even_def Let_def floor_rat_numeral)

lemma py_float_963: "py_float ''96.3'' = Some (Fin (6776510064309043 / 70368744177664))"
  by (simp add: py_float_def is_digit_def digits_val_def digit_val_def rd_963)

lemmas string_defs =
  py_strip_def is_space_def drop_sign_def is_sign_def remove_spaces_def is_digit_def
  py_isdigit_def digits_val_def digit_val_def

section \<open>Properties of the strings\<close>

lemma digit_not_sign: "is_digit c \<Longrightarrow> \<not> is_sign c"
  by (auto simp: is_digit_def is_sign_def)

lemma digit_not_blank: "is_digit c \<Longrightarrow> c \<noteq> CHR '' ''"
  by (auto simp: is_digit_def)

lemma digit_not_space: "is_digit c \<Longrightarrow> \<not> is_space c"
  by (auto simp: is_digit_def is_space_def)

lemma digit_not_point: "is_digit c \<Longrightarrow> c \<noteq> CHR ''.''"
  by (auto simp: is_digit_def)

lemma point_not_digit [simp]: "\<not> is_digit CHR ''.''"
  by (simp add: is_digit_def)

lemma contains_single: "contains [c] t = (c \<in> set t)"
  by (induction t) auto

lemma contains_head_in: "contains (a # as) t \<Longrightarrow> a \<in> set t"
  by (induction t) (auto simp: prefix_Cons)

lemma eq_char_of_iff: "(c = char_of (n::nat)) = (of_char c = n mod 256)"
  by (metis of_char_of char_of_char char_of_mod_256)

lemma lower_char_not_C2: "lower_char c \<noteq> CHR 0xC2"
proof
  assume h: "lower_char c = CHR 0xC2"
  then have "of_char (lower_char c) = (194::nat)" by simp
  then show False
    by (auto simp: lower_char_def Let_def split: if_splits)
qed

section \<open>Numeric strings and their parsing\<close>

lemma takeWhile_digits_point:
  "list_all is_digit ds \<Longrightarrow> takeWhile is_digit (ds @ CHR ''.'' # f) = ds"
  by (induction ds) simp_all

lemma dropWhile_digits_point:
  "list_all is_digit ds \<Longrightarrow> dropWhile is_digit (ds @ CHR ''.'' # f) = CHR ''.'' # f"
  by (induction ds) simp_all

lemma takeWhile_all: "list_all P xs \<Longrightarrow> takeWhile P xs = xs"
  by (induction xs) simp_all

lemma dropWhile_all: "list_all P xs \<Longrightarrow> dropWhile P xs = []"
  by (induction xs) simp_all

lemma list_all_takeWhile: "list_all P (takeWhile P xs)"
  by (induction xs) simp_all

text \<open>The shape of a numeric string: a sign or none, digits, and a fraction or none.\<close>

lemma numeric_strE:
  assumes "numeric_str s"
  obtains sg ds fr where "s = sg @ ds @ fr" "sg = [] \<or> (\<exists>c. sg = [c] \<and> is_sign c)"
    "ds \<noteq> []" "list_all is_digit ds"
    "fr = [] \<or> (\<exists>f. fr = CHR ''.'' # f \<and> f \<noteq> [] \<and> list_all is_digit f)"
proof -
  define b where "b = drop_sign s"
  define sg where "sg = take (length s - length b) s"
  have s: "s = sg @ b" and sg: "sg = [] \<or> (\<exists>c. sg = [c] \<and> is_sign c)"
    by (auto simp: sg_def b_def drop_sign_def split: list.splits)
  define ds where "ds = takeWhile is_digit b"
  define fr where "fr = dropWhile is_digit b"
  have b: "b = ds @ fr" by (simp add: ds_def fr_def)
  from assms have 1: "ds \<noteq> []"
    and 2: "fr = [] \<or> (\<exists>f. fr = CHR ''.'' # f \<and> f \<noteq> [] \<and> list_all is_digit f)"
    by (auto simp: numeric_str_def Let_def b_def ds_def fr_def split: list.splits)
  have 3: "list_all is_digit ds" by (simp add: ds_def list_all_takeWhile)
  from that [OF _ sg 1 3 2] s b show thesis by simp
qed

lemma py_float_unsigned:
  assumes "ds \<noteq> []" "list_all is_digit ds"
    "fr = [] \<or> (\<exists>f. fr = CHR ''.'' # f \<and> list_all is_digit f)"
  shows "py_float (ds @ fr) =
           Some (round_double (of_int (digits_val (ds @ tl fr)) / 10 ^ length (tl fr)))"
proof -
  obtain d ds' where ds: "ds = d # ds'" using assms(1) by (cases ds) auto
  then have d: "is_digit d" using assms(2) by simp
  then have nd: "d \<noteq> CHR ''-''" "d \<noteq> CHR ''+''" by (auto simp: is_digit_def)
  from assms(3) show ?thesis
  proof
    assume "fr = []"
    then show ?thesis
      using assms(1,2) nd
      by (simp add: py_float_def ds takeWhile_all dropWhile_all)
  next
    assume "\<exists>f. fr = CHR ''.'' # f \<and> list_all is_digit f"
    then obtain f where fr: "fr = CHR ''.'' # f" and f: "list_all is_digit f" by auto
    have tw: "takeWhile is_digit (d # ds' @ CHR ''.'' # f) = d # ds'"
      using takeWhile_digits_point [of "d # ds'" f] assms(2) ds by simp
    have dw: "dropWhile is_digit (d # ds' @ CHR ''.'' # f) = CHR ''.'' # f"
      using dropWhile_digits_point [of "d # ds'" f] assms(2) ds by simp
    show ?thesis
      using nd f tw dw
      by (simp add: py_float_def ds fr takeWhile_all dropWhile_all del: takeWhile.simps dropWhile.simps)
  qed
qed

lemma py_float_signed:
  assumes "is_sign c" "ds \<noteq> []" "list_all is_digit ds"
    "fr = [] \<or> (\<exists>f. fr = CHR ''.'' # f \<and> list_all is_digit f)"
  shows "py_float (c # ds @ fr) =
           Some (round_double ((if c = CHR ''-'' then - 1 else 1) *
                   (of_int (digits_val (ds @ tl fr)) / 10 ^ length (tl fr))))"
proof -
  from assms(4) show ?thesis
  proof
    assume "fr = []"
    then show ?thesis
      using assms(1-3)
      by (auto simp: py_float_def is_sign_def takeWhile_all dropWhile_all)
  next
    assume "\<exists>f. fr = CHR ''.'' # f \<and> list_all is_digit f"
    then obtain f where fr: "fr = CHR ''.'' # f" and f: "list_all is_digit f" by auto
    show ?thesis
      using assms(1-3) f
      by (auto simp: py_float_def is_sign_def fr takeWhile_all dropWhile_all
          takeWhile_digits_point dropWhile_digits_point)
  qed
qed

lemma remove_spaces_id: "CHR '' '' \<notin> set s \<Longrightarrow> remove_spaces s = s"
  by (auto simp: remove_spaces_def filter_id_conv)

lemma digits_no_blank: "list_all is_digit ds \<Longrightarrow> CHR '' '' \<notin> set ds"
  by (auto simp: list_all_iff dest: digit_not_blank)

lemma numeric_str_no_blank:
  assumes "numeric_str s"
  shows "CHR '' '' \<notin> set s"
proof -
  from assms obtain sg ds fr where s: "s = sg @ ds @ fr"
    and sg: "sg = [] \<or> (\<exists>c. sg = [c] \<and> is_sign c)"
    and ds: "list_all is_digit ds"
    and fr: "fr = [] \<or> (\<exists>f. fr = CHR ''.'' # f \<and> f \<noteq> [] \<and> list_all is_digit f)"
    by (rule numeric_strE)
  have "CHR '' '' \<notin> set sg" using sg by (auto simp: is_sign_def)
  moreover have "CHR '' '' \<notin> set ds" using ds by (rule digits_no_blank)
  moreover have "CHR '' '' \<notin> set fr" using fr by (auto dest: digits_no_blank)
  ultimately show ?thesis by (simp add: s)
qed

lemma numeric_str_parses:
  assumes "numeric_str s"
  shows "s \<noteq> [] \<and> (\<exists>v. py_float (with_sign s) = Some v)"
proof -
  from assms obtain sg ds fr where s: "s = sg @ ds @ fr"
    and sg: "sg = [] \<or> (\<exists>c. sg = [c] \<and> is_sign c)"
    and ne: "ds \<noteq> []" and ds: "list_all is_digit ds"
    and fr: "fr = [] \<or> (\<exists>f. fr = CHR ''.'' # f \<and> f \<noteq> [] \<and> list_all is_digit f)"
    by (rule numeric_strE)
  have fr': "fr = [] \<or> (\<exists>f. fr = CHR ''.'' # f \<and> list_all is_digit f)" using fr by auto
  obtain d ds' where d: "ds = d # ds'" "is_digit d" using ne ds by (cases ds) auto
  from sg show ?thesis
  proof
    assume "sg = []"
    then have "with_sign s = CHR ''+'' # ds @ fr"
      using d by (simp add: s with_sign_def digit_not_sign)
    then show ?thesis
      using py_float_signed [of "CHR ''+''" ds fr] ne ds fr' by (simp add: s is_sign_def)
  next
    assume "\<exists>c. sg = [c] \<and> is_sign c"
    then obtain c where c: "sg = [c]" "is_sign c" by auto
    then have "with_sign s = c # ds @ fr" by (simp add: s with_sign_def)
    then show ?thesis
      using py_float_signed [of c ds fr] c ne ds fr' by (simp add: s)
  qed
qed

lemma normalize_angle_numeric_eq:
  assumes "numeric_str s" "py_float (with_sign s) = Some v"
  shows "normalize_angle (Some s) =
           (if fgt (fabs v) (Fin 100) then None else Some (with_sign s))"
proof -
  have ne: "s \<noteq> []" using numeric_str_parses [OF assms(1)] by simp
  have rs: "remove_spaces s = s" using numeric_str_no_blank [OF assms(1)] by (rule remove_spaces_id)
  have ws: "with_sign s = (if is_sign (hd s) then s else CHR ''+'' # s)"
    using ne by (cases s) (simp_all add: with_sign_def)
  show ?thesis
    using ne assms(2)
    by (cases "is_sign (hd s)") (simp_all add: normalize_angle_def rs ws ANGLE_LIMIT_ABS_eq)
qed

lemma numeric_strI:
  assumes "sg = [] \<or> (\<exists>c. sg = [c] \<and> is_sign c)" "ds \<noteq> []" "list_all is_digit ds"
    "fr = [] \<or> (\<exists>f. fr = CHR ''.'' # f \<and> f \<noteq> [] \<and> list_all is_digit f)"
  shows "numeric_str (sg @ ds @ fr)"
proof -
  obtain d ds' where d: "ds = d # ds'" "is_digit d" using assms(2,3) by (cases ds) auto
  have b: "drop_sign (sg @ ds @ fr) = ds @ fr"
    using assms(1) d by (auto simp: drop_sign_def digit_not_sign)
  from assms(4) have "numeric_str (sg @ ds @ fr)"
  proof
    assume "fr = []"
    then have "drop_sign (sg @ ds) = ds" using b by simp
    then show ?thesis
      using assms(2,3) \<open>fr = []\<close>
      by (simp add: numeric_str_def takeWhile_all dropWhile_all list_all_iff)
  next
    assume "\<exists>f. fr = CHR ''.'' # f \<and> f \<noteq> [] \<and> list_all is_digit f"
    then obtain f where f: "fr = CHR ''.'' # f" "f \<noteq> []" "list_all is_digit f" by auto
    have "drop_sign (sg @ ds @ CHR ''.'' # f) = ds @ CHR ''.'' # f" using b f(1) by simp
    then show ?thesis
      using assms(2,3) f
      by (simp add: numeric_str_def takeWhile_digits_point dropWhile_digits_point)
  qed
  then show ?thesis .
qed

lemma unsigned_match_shape:
  assumes "is_digit c"
  shows "\<exists>ds fr. unsigned_match (c # cs) = ds @ fr \<and> ds \<noteq> [] \<and> list_all is_digit ds \<and>
           (fr = [] \<or> (\<exists>f. fr = CHR ''.'' # f \<and> f \<noteq> [] \<and> list_all is_digit f))"
proof -
  define ds where "ds = takeWhile is_digit (c # cs)"
  have ne: "ds \<noteq> []" using assms by (simp add: ds_def)
  have al: "list_all is_digit ds" unfolding ds_def by (rule list_all_takeWhile)
  show ?thesis
  proof (cases "unsigned_match (c # cs) = ds")
    case True
    then show ?thesis using ne al by (intro exI [of _ ds] exI [of _ "[]"]) simp
  next
    case False
    then obtain r where "unsigned_match (c # cs) = ds @ CHR ''.'' # takeWhile is_digit r"
      and "takeWhile is_digit r \<noteq> []"
      by (auto simp: unsigned_match_def ds_def Let_def split: list.splits if_splits)
    then show ?thesis
      using ne al
      by (intro exI [of _ ds] exI [of _ "CHR ''.'' # takeWhile is_digit r"])
         (simp add: list_all_takeWhile)
  qed
qed

lemma search_num_numeric: "search_num t = Some m \<Longrightarrow> numeric_str m"
proof (induction t)
  case Nil
  then show ?case by simp
next
  case (Cons c cs)
  show ?case
  proof (cases "is_sign c \<and> (case cs of [] \<Rightarrow> False | d # _ \<Rightarrow> is_digit d)")
    case True
    then obtain d cs' where cs: "cs = d # cs'" and d: "is_digit d" by (auto split: list.splits)
    from unsigned_match_shape [OF d, of cs']
    obtain ds fr where u: "unsigned_match cs = ds @ fr" "ds \<noteq> []" "list_all is_digit ds"
      "fr = [] \<or> (\<exists>f. fr = CHR ''.'' # f \<and> f \<noteq> [] \<and> list_all is_digit f)"
      using cs by auto
    have "m = [c] @ ds @ fr" using Cons.prems True u(1) by simp
    moreover have "numeric_str ([c] @ ds @ fr)"
      using True u(2-4) by (intro numeric_strI) auto
    ultimately show ?thesis by simp
  next
    case False
    show ?thesis
    proof (cases "is_digit c")
      case True
      from unsigned_match_shape [OF True, of cs]
      obtain ds fr where u: "unsigned_match (c # cs) = ds @ fr" "ds \<noteq> []" "list_all is_digit ds"
        "fr = [] \<or> (\<exists>f. fr = CHR ''.'' # f \<and> f \<noteq> [] \<and> list_all is_digit f)"
        by auto
      have "m = [] @ ds @ fr" using Cons.prems False True u(1) by simp
      moreover have "numeric_str ([] @ ds @ fr)" using u(2-4) by (intro numeric_strI) auto
      ultimately show ?thesis by simp
    next
      case nd: False
      then show ?thesis using Cons False by simp
    qed
  qed
qed

lemma extract_num_str_numeric: "extract_num_str t = Some m \<Longrightarrow> numeric_str m"
  by (auto simp: extract_num_str_def split: if_splits dest: search_num_numeric)

section \<open>Temperature repair\<close>

lemma repair_temp_963_eval: "repair_temp (Some ''963'') = Some (Fin 63)"
  by (simp add: repair_temp_def string_defs float_of_int_small TEMP_MAX_eq py_float_963
      frac_part_def fsub_def fgt_def rd_eps round_double_def)

text \<open>
  Claim C1, as amended. \<open>repair_temp("963")\<close> is not a rejection: of the candidates
  96.0, 63.0 and 96.3 the second is within the bound 80.0, it has no fractional part,
  and it is returned, so \<open>repair_temp("963")\<close> is 63.0. The candidates 96.0 and 96.3
  exceed the bound.
\<close>

theorem repair_temp_963:
  "repair_temp (Some ''963'') = Some (Fin 63) \<and>
   \<not> fle (float_of_int (digits_val ''96'')) TEMP_MAX \<and>
   fle (float_of_int (digits_val ''63'')) TEMP_MAX \<and>
   map_option (\<lambda>v. fle v TEMP_MAX) (py_float ''96.3'') = Some False"
  by (simp add: repair_temp_963_eval float_of_int_small TEMP_MAX_eq py_float_963
      digits_val_def digit_val_def)

text \<open>
  Claim C1 as the specification states it, that \<open>repair_temp("963")\<close> is \<open>None\<close>,
  fails.
\<close>

theorem repair_temp_963_counterexample: "repair_temp (Some ''963'') \<noteq> None"
  by (simp add: repair_temp_963_eval)

section \<open>The temperature hint\<close>

lemma no_degree_literal: "\<not> contains [CHR 0xC2, CHR 0xB0] (py_lower t)"
proof
  assume "contains [CHR 0xC2, CHR 0xB0] (py_lower t)"
  then have "CHR 0xC2 \<in> set (py_lower t)" by (rule contains_head_in)
  then obtain x where "lower_char x = CHR 0xC2" by (auto simp: py_lower_def)
  then show False using lower_char_not_C2 [of x] by simp
qed

text \<open>
  Claim C8. The specification has \<open>has_temperature_hint\<close> true for a text that holds a
  degree sign and no letter c. In the source the second literal is the two code points
  U+00C2 U+00B0, searched in the lowercased text, where U+00C2 has become U+00E2: the
  test is never true, and \<open>has_temp_hint\<close> is true exactly when the lowercased text
  holds the letter c. It is false on the text 25 followed by the degree sign, and on 25
  followed by the two code points of the literal.
\<close>

theorem has_temp_hint_degree_sign:
  "has_temp_hint t = (CHR ''c'' \<in> set (py_lower t)) \<and>
   has_temp_hint [CHR ''2'', CHR ''5'', CHR 0xB0] = False \<and>
   has_temp_hint [CHR ''2'', CHR ''5'', CHR 0xC2, CHR 0xB0] = False"
  using no_degree_literal
  by (simp add: has_temp_hint_def contains_single py_lower_def lower_char_def eq_char_of_iff)

section \<open>Angle normalization\<close>

lemma rd_455: "round_double (91 / 2) = Fin (91 / 2)"
  by (subst round_double_eval [where e = 5])
     (simp_all add: power_int_def power_one_over round_half_even_def Let_def floor_rat_numeral)

lemma normalize_angle_5: "normalize_angle (Some ''5'') = Some ''+5''"
  using round_double_of_int [of 5]
  by (simp add: normalize_angle_def string_defs py_float_def ANGLE_LIMIT_ABS_eq fgt_def)

lemma normalize_angle_120: "normalize_angle (Some ''-120'') = None"
  using round_double_of_int [of "- 120"]
  by (simp add: normalize_angle_def string_defs py_float_def ANGLE_LIMIT_ABS_eq fgt_def)

lemma normalize_angle_455: "normalize_angle (Some ''+45.5'') = Some ''+45.5''"
  by (simp add: normalize_angle_def string_defs py_float_def ANGLE_LIMIT_ABS_eq fgt_def rd_455)

text \<open>
  Claim C7. For a numeric string \<open>normalize_angle\<close> puts a \<open>+\<close> in front when there
  is no sign and parses the result as a float, which never fails on a numeric string;
  it returns \<open>None\<close> exactly when the absolute value of that float exceeds 100.0, and
  the signed string itself otherwise. So \<open>normalize_angle("5")\<close> is \<open>"+5"\<close>,
  \<open>normalize_angle("-120")\<close> is \<open>None\<close> and \<open>normalize_angle("+45.5")\<close> is \<open>"+45.5"\<close>.
\<close>

theorem normalize_angle_numeric:
  "(numeric_str s \<longrightarrow>
      (\<exists>v. py_float (with_sign s) = Some v \<and>
           normalize_angle (Some s) =
             (if fgt (fabs v) (Fin 100) then None else Some (with_sign s)))) \<and>
   normalize_angle (Some ''5'') = Some ''+5'' \<and>
   normalize_angle (Some ''-120'') = None \<and>
   normalize_angle (Some ''+45.5'') = Some ''+45.5''"
proof -
  have "\<exists>v. py_float (with_sign s) = Some v \<and>
           normalize_angle (Some s) =
             (if fgt (fabs v) (Fin 100) then None else Some (with_sign s))"
    if n: "numeric_str s"
  proof -
    from numeric_str_parses [OF n] obtain v where v: "py_float (with_sign s) = Some v" by auto
    from normalize_angle_numeric_eq [OF n v] v show ?thesis by blast
  qed
  then show ?thesis
    by (simp add: normalize_angle_5 normalize_angle_120 normalize_angle_455)
qed

text \<open>The string \<open>"-120"\<close> is numeric, parses to -120.0, and is rejected.\<close>

theorem normalize_angle_numeric_witness:
  "numeric_str ''-120'' \<and> with_sign ''-120'' = ''-120'' \<and>
   py_float ''-120'' = Some (Fin (- 120)) \<and> fgt (fabs (Fin (- 120))) (Fin 100) \<and>
   normalize_angle (Some ''-120'') = None"
  using normalize_angle_numeric [of "''-120''"] round_double_of_int [of "- 120"]
  by (simp add: numeric_str_def with_sign_def string_defs py_float_def fgt_def)

section \<open>Temperature repair of three digits or more\<close>

lemma digit_val_range: "is_digit c \<Longrightarrow> 0 \<le> digit_val c \<and> digit_val c \<le> 9"
  by (auto simp: is_digit_def digit_val_def)

lemma two_digits_range:
  "is_digit a \<Longrightarrow> is_digit b \<Longrightarrow> 0 \<le> two_digits a b \<and> two_digits a b \<le> 99"
  using digit_val_range [of a] digit_val_range [of b] by (simp add: two_digits_def)

lemma frac_part_int:
  assumes "\<bar>n\<bar> < 2 ^ 53"
  shows "frac_part (Fin (of_int n)) = Fin 0"
  using assms by (simp add: frac_part_def fsub_def float_of_int_small round_double_def)

lemma eps_small: "\<exists>e. round_double (1 / 10 ^ 9) = Fin e \<and> 0 < e \<and> e < 1 / 16"
proof -
  have "(0::rat) < 4835703278458517 / 4835703278458516698824704"
    "(4835703278458517 / 4835703278458516698824704 :: rat) < 1 / 16" by simp_all
  then show ?thesis using rd_eps by blast
qed

lemma int_no_fraction:
  assumes "\<bar>n\<bar> < 2 ^ 53"
  shows "fgt (frac_part (float_of_int n)) (round_double (1 / 10 ^ 9)) = spec_has_fraction (float_of_int n)"
  using assms eps_small
  by (auto simp: float_of_int_small frac_part_int fgt_def spec_has_fraction_def)

lemma decimal_fraction:
  assumes "0 \<le> k" "k \<le> 99" "0 \<le> c" "c \<le> 9"
  defines "v \<equiv> round_double (of_int k + of_int c / 10)"
  shows "fgt (frac_part v) (round_double (1 / 10 ^ 9)) = spec_has_fraction v"
    and "spec_has_fraction v = (c \<noteq> 0)"
proof -
  have "fgt (frac_part v) (round_double (1 / 10 ^ 9)) = spec_has_fraction v \<and>
        spec_has_fraction v = (c \<noteq> 0)"
  proof (cases "c = 0")
    case True
    then have v: "v = float_of_int k" by (simp add: v_def float_of_int_def)
    have k: "\<bar>k\<bar> < 2 ^ 53" using assms(1,2) by simp
    show ?thesis
      using int_no_fraction [OF k] True k
      by (simp add: v float_of_int_small spec_has_fraction_def)
  next
    case False
    define x :: rat where "x = of_int k + of_int c / 10"
    have c1: "(1::rat) \<le> of_int c" "(of_int c :: rat) \<le> 9"
      using False assms(3,4) by (simp_all add: int_one_le_iff_zero_less)
    have k0: "(0::rat) \<le> of_int k" "(of_int k :: rat) \<le> 99" using assms(1,2) by simp_all
    have xl: "of_int k + 1 / 10 \<le> x" and xu: "x \<le> of_int k + 9 / 10"
      using c1 by (simp_all add: x_def)
    have "0 < x" "x < 128" using xl xu k0 by simp_all
    from round_double_near [OF this] obtain r where r: "round_double x = Fin r"
      and err: "\<bar>r - x\<bar> \<le> 1 / 2 ^ 47" by auto
    have err': "\<bar>r - x\<bar> \<le> 1 / 140737488355328" using err by simp
    have rl: "of_int k + 1 / 16 \<le> r" and ru: "r \<le> of_int k + 15 / 16"
      using err' xl xu by linarith+
    have fl: "\<lfloor>r\<rfloor> = k" using rl ru by (intro floor_unique) simp_all
    have r0: "0 \<le> r" using rl k0 by simp
    have kk: "\<bar>k\<bar> < 2 ^ 53" using assms(1,2) by simp
    have fp: "frac_part (Fin r) = fabs (round_double (r - of_int k))"
      using r0 fl kk by (simp add: frac_part_def fsub_def float_of_int_small)
    have "2 powi (- 4) \<le> r - of_int k" using rl by (simp add: power_int_def power_one_over)
    from round_double_ge [OF this]
    have "round_double (r - of_int k) = PInf \<or>
          (\<exists>y. round_double (r - of_int k) = Fin y \<and> 1 / 16 \<le> y)"
      by (simp add: power_int_def power_one_over)
    then have "fgt (frac_part (Fin r)) (round_double (1 / 10 ^ 9))"
      using eps_small by (auto simp: fp fgt_def)
    moreover have "spec_has_fraction (Fin r)" using fl rl by (simp add: spec_has_fraction_def)
    ultimately show ?thesis using False r by (simp add: v_def x_def)
  qed
  then show "fgt (frac_part v) (round_double (1 / 10 ^ 9)) = spec_has_fraction v"
    and "spec_has_fraction v = (c \<noteq> 0)" by simp_all
qed

lemma py_strip_digits:
  assumes "list_all is_digit s"
  shows "py_strip s = s"
proof (cases s rule: rev_cases)
  case Nil
  then show ?thesis by (simp add: py_strip_def)
next
  case (snoc ys y)
  then have y: "\<not> is_space y" using assms by (simp add: digit_not_space)
  have "s \<noteq> []" using snoc by simp
  then obtain x xs where xs: "s = x # xs" by (cases s) auto
  then have "\<not> is_space x" using assms by (simp add: digit_not_space)
  then have "dropWhile is_space s = s" by (simp add: xs)
  then show ?thesis using y by (simp add: py_strip_def snoc)
qed

lemma digits_prepared:
  assumes "list_all is_digit s"
  shows "filter (\<lambda>c. is_digit c \<or> c = CHR ''.'') (remove_spaces (drop_sign (py_strip s))) = s"
proof -
  have "drop_sign s = s" using assms by (cases s) (simp_all add: drop_sign_def digit_not_sign)
  moreover have "remove_spaces s = s" using assms by (intro remove_spaces_id digits_no_blank)
  moreover have "filter (\<lambda>c. is_digit c \<or> c = CHR ''.'') s = s"
    using assms by (simp add: filter_id_conv list_all_iff)
  ultimately show ?thesis using py_strip_digits [OF assms] by simp
qed

lemma digits_no_point: "list_all is_digit s \<Longrightarrow> \<not> contains ''.'' s"
  by (auto simp: contains_single list_all_iff dest: digit_not_point)

lemma digits_isdigit: "list_all is_digit s \<Longrightarrow> s \<noteq> [] \<Longrightarrow> py_isdigit s"
  by (simp add: py_isdigit_def list_all_iff)

lemma last_two:
  assumes "2 \<le> length s"
  shows "drop (length s - 2) s = [s ! (length s - 2), s ! (length s - 1)]"
proof -
  have 1: "length s - 2 < length s" and 2: "length s - 1 < length s" using assms by simp_all
  from Cons_nth_drop_Suc [OF 1]
  have a: "drop (length s - 2) s = s ! (length s - 2) # drop (Suc (length s - 2)) s" by simp
  have e: "Suc (length s - 2) = length s - 1" using assms by simp
  from Cons_nth_drop_Suc [OF 2]
  have b: "drop (length s - 1) s = s ! (length s - 1) # drop (Suc (length s - 1)) s" by simp
  have c: "drop (Suc (length s - 1)) s = []" using assms by simp
  show ?thesis by (simp only: a e b c)
qed

lemma digits_val_two: "digits_val [a, b] = two_digits a b"
  by (simp add: digits_val_def two_digits_def)

lemma py_float_decimal3:
  assumes "is_digit a" "is_digit b" "is_digit c"
  shows "py_float ([a, b] @ ''.'' @ [c]) =
           Some (round_double (of_int (two_digits a b) + of_int (digit_val c) / 10))"
proof -
  have "py_float ([a, b] @ CHR ''.'' # [c]) =
          Some (round_double (of_int (digits_val ([a, b] @ tl (CHR ''.'' # [c]))) /
                  10 ^ length (tl (CHR ''.'' # [c]))))"
    using assms by (intro py_float_unsigned) simp_all
  moreover have "(of_int (digits_val [a, b, c]) :: rat) / 10 =
                 of_int (two_digits a b) + of_int (digit_val c) / 10"
    by (simp add: digits_val_def two_digits_def)
  ultimately show ?thesis by simp
qed

text \<open>Every candidate is a finite float: \<open>int(v)\<close> does not raise in \<open>repair_temp\<close>.\<close>

lemma temp_candidates_finite:
  assumes "list_all is_digit s" "3 \<le> length s" "v \<in> set (spec_temp_candidates s)"
  shows "\<exists>x. v = Fin x"
proof -
  have nth: "is_digit (s ! i)" if "i < length s" for i
    using assms(1) that by (simp add: list_all_length)
  have d: "is_digit (s ! 0)" "is_digit (s ! 1)" "is_digit (s ! 2)"
    "is_digit (s ! (length s - 2))" "is_digit (s ! (length s - 1))"
    using assms(2) by (auto intro!: nth)
  have r1: "0 \<le> two_digits (s ! 0) (s ! 1) \<and> two_digits (s ! 0) (s ! 1) \<le> 99"
    using two_digits_range [OF d(1,2)] .
  have r2: "0 \<le> two_digits (s ! (length s - 2)) (s ! (length s - 1)) \<and>
            two_digits (s ! (length s - 2)) (s ! (length s - 1)) \<le> 99"
    using two_digits_range [OF d(4,5)] .
  have r3: "0 \<le> digit_val (s ! 2) \<and> digit_val (s ! 2) \<le> 9"
    using digit_val_range [OF d(3)] .
  define x :: rat where "x = of_int (two_digits (s ! 0) (s ! 1)) + of_int (digit_val (s ! 2)) / 10"
  have "\<exists>y. round_double x = Fin y"
  proof (cases "x = 0")
    case True
    then show ?thesis by (simp add: round_double_def)
  next
    case False
    have "(0::rat) \<le> of_int (two_digits (s ! 0) (s ! 1))"
      "(of_int (two_digits (s ! 0) (s ! 1)) :: rat) \<le> 99"
      "(0::rat) \<le> of_int (digit_val (s ! 2))" "(of_int (digit_val (s ! 2)) :: rat) \<le> 9"
      using r1 r3 by simp_all
    then have "0 \<le> x" "x < 128" by (simp_all add: x_def)
    with False have "0 < x" by simp
    from round_double_near [OF this \<open>x < 128\<close>] show ?thesis by blast
  qed
  then show ?thesis
    using assms(3) r1 r2
    by (auto simp: spec_temp_candidates_def float_of_int_small x_def split: if_splits)
qed

lemma repair_temp_ambiguous_eq:
  assumes "list_all is_digit s" "3 \<le> length s"
  shows "repair_temp (Some s) =
           (let valid = filter (\<lambda>c. fle c (Fin 80)) (spec_temp_candidates s)
            in case filter spec_has_fraction valid of
                 d # _ \<Rightarrow> Some d
               | [] \<Rightarrow> (case valid of [] \<Rightarrow> None | v # vs \<Rightarrow> Some (py_min v vs)))"
proof -
  obtain a b c rest where s: "s = a # b # c # rest"
    using assms(2) by (cases s; cases "tl s"; cases "tl (tl s)") auto
  have d: "is_digit a" "is_digit b" "is_digit c" using assms(1) by (simp_all add: s)
  have n2: "2 \<le> length s" using assms(2) by simp
  have dl: "is_digit (s ! (length s - 2))" "is_digit (s ! (length s - 1))"
    using assms by (simp_all add: list_all_length)
  define test where "test = (\<lambda>v. fgt (frac_part v) (round_double (1 / 10 ^ 9)))"
  define cands where "cands = spec_temp_candidates s"
  define valid where "valid = filter (\<lambda>c. fle c (Fin 80)) cands"
  have first: "digits_val (take 2 s) = two_digits (s ! 0) (s ! 1)"
    by (simp add: s digits_val_two)
  have last: "digits_val (drop (length s - 2) s) =
                two_digits (s ! (length s - 2)) (s ! (length s - 1))"
    by (simp only: last_two [OF n2] digits_val_two)
  have third: "py_float (take 2 s @ ''.'' @ [s ! 2]) =
                 Some (round_double (of_int (two_digits (s ! 0) (s ! 1)) +
                         of_int (digit_val (s ! 2)) / 10))"
    using py_float_decimal3 [OF d] by (simp add: s)
  define code_c where "code_c =
     (if 3 \<le> length s
      then [float_of_int (digits_val (take 2 s)),
            float_of_int (digits_val (drop (length s - 2) s))]
      else []) @
     (if length s = 3
      then (case py_float (take 2 s @ ''.'' @ [s ! 2]) of None \<Rightarrow> [] | Some v \<Rightarrow> [v])
      else [])"
  have code_cands: "code_c = cands"
    using assms(2)
    by (simp only: code_c_def first last third cands_def spec_temp_candidates_def) simp
  have r1: "0 \<le> two_digits (s ! 0) (s ! 1) \<and> two_digits (s ! 0) (s ! 1) \<le> 99"
    using two_digits_range [of a b] d by (simp add: s)
  have r2: "0 \<le> two_digits (s ! (length s - 2)) (s ! (length s - 1)) \<and>
            two_digits (s ! (length s - 2)) (s ! (length s - 1)) \<le> 99"
    using two_digits_range [OF dl] .
  have r3: "0 \<le> digit_val (s ! 2) \<and> digit_val (s ! 2) \<le> 9"
    using digit_val_range [of c] d by (simp add: s)
  have t1: "test (float_of_int (two_digits (s ! 0) (s ! 1))) =
            spec_has_fraction (float_of_int (two_digits (s ! 0) (s ! 1)))"
    unfolding test_def using r1 by (intro int_no_fraction) simp
  have t2: "test (float_of_int (two_digits (s ! (length s - 2)) (s ! (length s - 1)))) =
            spec_has_fraction (float_of_int (two_digits (s ! (length s - 2)) (s ! (length s - 1))))"
    unfolding test_def using r2 by (intro int_no_fraction) simp
  have t3: "test (round_double (of_int (two_digits (s ! 0) (s ! 1)) + of_int (digit_val (s ! 2)) / 10)) =
            spec_has_fraction (round_double (of_int (two_digits (s ! 0) (s ! 1)) +
              of_int (digit_val (s ! 2)) / 10))"
    unfolding test_def using r1 r3 by (intro decimal_fraction(1)) simp_all
  have "\<forall>v \<in> set cands. test v = spec_has_fraction v"
    using t1 t2 t3 by (simp add: cands_def spec_temp_candidates_def)
  then have ft: "filter test valid = filter spec_has_fraction valid"
    by (intro filter_cong) (auto simp: valid_def)
  have prep: "filter (\<lambda>c. is_digit c \<or> c = CHR ''.'') (remove_spaces (drop_sign (py_strip s))) = s"
    using assms(1) by (rule digits_prepared)
  have ne: "s \<noteq> []" by (simp add: s)
  have "repair_temp (Some s) =
          (case filter (\<lambda>c. fle c TEMP_MAX) code_c of [] \<Rightarrow> None
           | v0 # vs \<Rightarrow>
               (case filter test (filter (\<lambda>c. fle c TEMP_MAX) code_c) of
                  d # _ \<Rightarrow> Some d | [] \<Rightarrow> Some (py_min v0 vs)))"
  proof -
    have l2: "(length s \<le> 2) = False" "(3 \<le> length s) = True" using assms(2) by simp_all
    have np: "contains ''.'' s = False" using digits_no_point [OF assms(1)] by simp
    have isd: "py_isdigit s = True" using digits_isdigit [OF assms(1) ne] by simp
    have ne': "(s = []) = False" using ne by simp
    show ?thesis
      by (simp only: repair_temp_def option.case Let_def prep code_c_def test_def l2 np isd ne'
            if_True if_False not_True_eq_False not_False_eq_True)
  qed
  also have "\<dots> =
          (case valid of [] \<Rightarrow> None
           | v0 # vs \<Rightarrow> (case filter test valid of d # _ \<Rightarrow> Some d | [] \<Rightarrow> Some (py_min v0 vs)))"
    by (simp only: code_cands TEMP_MAX_eq valid_def)
  also have "\<dots> =
          (case filter test valid of d # _ \<Rightarrow> Some d
           | [] \<Rightarrow> (case valid of [] \<Rightarrow> None | v # vs \<Rightarrow> Some (py_min v vs)))"
    by (cases valid) (simp_all split: list.splits)
  finally show ?thesis
    by (simp only: Let_def ft [unfolded valid_def cands_def] valid_def cands_def)
qed

lemma py_min_in: "py_min m ys \<in> set (m # ys)"
  by (induction ys arbitrary: m) auto

lemma py_min_least_aux:
  "\<forall>z \<in> Z. \<not> flt z m \<Longrightarrow> \<forall>z \<in> Z \<union> set (m # ys). \<not> flt z (py_min m ys)"
proof (induction ys arbitrary: m Z)
  case Nil
  then show ?case by (simp add: flt_irrefl)
next
  case (Cons y ys)
  let ?m = "if flt y m then y else m"
  have "\<forall>z \<in> Z \<union> {m, y}. \<not> flt z ?m"
    using Cons.prems flt_trans [of m y m] by (auto simp: flt_irrefl dest: flt_trans)
  from Cons.IH [OF this] show ?case by auto
qed

lemma py_min_least: "y \<in> set (m # ys) \<Longrightarrow> \<not> flt y (py_min m ys)"
  using py_min_least_aux [of "{}" m ys] by auto

lemma rd_375: "round_double (75 / 2) = Fin (75 / 2)"
  by (subst round_double_eval [where e = 5])
     (simp_all add: power_int_def power_one_over round_half_even_def Let_def floor_rat_numeral)

lemma repair_temp_375: "repair_temp (Some ''375'') = Some (Fin (75 / 2))"
proof -
  have f: "py_float ''37.5'' = Some (Fin (75 / 2))"
    by (simp add: py_float_def is_digit_def digits_val_def digit_val_def rd_375)
  have "round_double (75 / 2 - 37) = Fin (1 / 2)"
    by (subst round_double_eval [where e = "- 1"])
       (simp_all add: power_int_def power_one_over round_half_even_def Let_def floor_rat_numeral)
  then have "fgt (frac_part (Fin (75 / 2))) (round_double (1 / 10 ^ 9))"
    using rd_eps by (simp add: frac_part_def fsub_def float_of_int_small fgt_def floor_rat_numeral)
  then show ?thesis
    using rd_eps
    by (simp add: repair_temp_def string_defs float_of_int_small TEMP_MAX_eq f
        frac_part_def fsub_def fgt_def round_double_def)
qed

text \<open>
  Claim C3. On a string of three digits or more \<open>repair_temp\<close> builds the candidates
  of \<open>spec_temp_candidates\<close>: the first two digits as an integer, the last two digits
  as an integer and, for exactly three digits, the first two digits, a point and the
  third digit. When none of them is within 80.0 it returns \<open>None\<close>. When one of those
  within 80.0 has a fractional part that is not zero, it returns the first such
  candidate. Otherwise it returns their minimum: one of the candidates within 80.0,
  and no candidate within 80.0 is below it. \<open>repair_temp("375")\<close> is 37.5.
\<close>

theorem repair_temp_ambiguous:
  "(list_all is_digit s \<and> 3 \<le> length s \<longrightarrow>
      (let valid = filter (\<lambda>c. fle c (Fin 80)) (spec_temp_candidates s);
           decimals = filter spec_has_fraction valid
       in (valid = [] \<longrightarrow> repair_temp (Some s) = None) \<and>
          (decimals \<noteq> [] \<longrightarrow> repair_temp (Some s) = Some (hd decimals)) \<and>
          (valid \<noteq> [] \<and> decimals = [] \<longrightarrow>
             (\<exists>v \<in> set valid. repair_temp (Some s) = Some v \<and>
                                (\<forall>w \<in> set valid. fle v w))))) \<and>
   repair_temp (Some ''375'') = Some (Fin (75 / 2))"
proof -
  define valid where "valid = filter (\<lambda>c. fle c (Fin 80)) (spec_temp_candidates s)"
  define decimals where "decimals = filter spec_has_fraction valid"
  have gen: "(valid = [] \<longrightarrow> repair_temp (Some s) = None) \<and>
             (decimals \<noteq> [] \<longrightarrow> repair_temp (Some s) = Some (hd decimals)) \<and>
             (valid \<noteq> [] \<and> decimals = [] \<longrightarrow>
                (\<exists>v \<in> set valid. repair_temp (Some s) = Some v \<and>
                                   (\<forall>w \<in> set valid. fle v w)))"
    if h: "list_all is_digit s" "3 \<le> length s"
  proof -
    have eq: "repair_temp (Some s) =
                (case decimals of d # _ \<Rightarrow> Some d
                 | [] \<Rightarrow> (case valid of [] \<Rightarrow> None | v # vs \<Rightarrow> Some (py_min v vs)))"
      using repair_temp_ambiguous_eq [OF h] by (simp only: Let_def valid_def decimals_def)
    have fin: "w \<noteq> NaN" if "w \<in> set valid" for w
      using temp_candidates_finite [OF h, of w] that by (auto simp: valid_def)
    have none: "repair_temp (Some s) = None" if "valid = []"
      using that by (simp add: eq decimals_def)
    have first: "repair_temp (Some s) = Some (hd decimals)" if "decimals \<noteq> []"
      using that by (cases decimals) (simp_all add: eq)
    have least: "\<exists>v \<in> set valid. repair_temp (Some s) = Some v \<and> (\<forall>w \<in> set valid. fle v w)"
      if ne: "valid \<noteq> []" and nd: "decimals = []"
    proof -
      obtain v0 vs where v: "valid = v0 # vs" using ne by (cases valid) auto
      have r: "repair_temp (Some s) = Some (py_min v0 vs)" by (simp add: eq nd v)
      have m: "py_min v0 vs \<in> set valid" using py_min_in [of v0 vs] by (simp only: v)
      have "fle (py_min v0 vs) w" if w: "w \<in> set valid" for w
        using fle_iff_not_flt [OF fin [OF m] fin [OF w]] py_min_least [of w v0 vs] w
        by (simp add: v)
      with r m show ?thesis by blast
    qed
    from none first least show ?thesis by blast
  qed
  show ?thesis
    using gen repair_temp_375 by (simp only: Let_def valid_def decimals_def) blast
qed

text \<open>
  The string \<open>"5012"\<close> has the candidates 50.0 and 12.0, and \<open>"800"\<close> has 80.0, 0.0 and
  80.0: all are within the bound and without a fraction, and \<open>repair_temp\<close> returns the
  least of them, which is not the first. The candidates of \<open>"9999"\<close> are both 99.0 and
  \<open>repair_temp\<close> returns \<open>None\<close>. Of the candidates 37.0, 75.0 and 37.5 of \<open>"375"\<close> the
  only one with a fraction is returned.
\<close>

theorem repair_temp_ambiguous_witness:
  "list_all is_digit ''5012'' \<and> 3 \<le> length ''5012'' \<and>
   filter (\<lambda>c. fle c (Fin 80)) (spec_temp_candidates ''5012'') = [Fin 50, Fin 12] \<and>
   repair_temp (Some ''5012'') = Some (Fin 12) \<and>
   filter (\<lambda>c. fle c (Fin 80)) (spec_temp_candidates ''800'') = [Fin 80, Fin 0, Fin 80] \<and>
   repair_temp (Some ''800'') = Some (Fin 0) \<and>
   filter (\<lambda>c. fle c (Fin 80)) (spec_temp_candidates ''9999'') = [] \<and>
   repair_temp (Some ''9999'') = None \<and>
   filter (\<lambda>c. fle c (Fin 80)) (spec_temp_candidates ''375'') =
     [Fin 37, Fin 75, Fin (75 / 2)] \<and>
   filter spec_has_fraction [Fin 37, Fin 75, Fin (75 / 2)] = [Fin (75 / 2)]"
proof -
  have d: "list_all is_digit ''5012''" "list_all is_digit ''800''"
    "list_all is_digit ''9999''" "list_all is_digit ''375''"
    by (simp_all add: is_digit_def)
  have r80: "round_double 80 = Fin 80"
    using round_double_of_int [of 80] by simp
  have c1: "filter (\<lambda>c. fle c (Fin 80)) (spec_temp_candidates ''5012'') = [Fin 50, Fin 12]"
    by (simp add: spec_temp_candidates_def two_digits_def digit_val_def float_of_int_small)
  have c2: "filter (\<lambda>c. fle c (Fin 80)) (spec_temp_candidates ''800'') = [Fin 80, Fin 0, Fin 80]"
    by (simp add: spec_temp_candidates_def two_digits_def digit_val_def float_of_int_small r80)
  have c3: "filter (\<lambda>c. fle c (Fin 80)) (spec_temp_candidates ''9999'') = []"
    by (simp add: spec_temp_candidates_def two_digits_def digit_val_def float_of_int_small)
  have c4: "filter (\<lambda>c. fle c (Fin 80)) (spec_temp_candidates ''375'') =
              [Fin 37, Fin 75, Fin (75 / 2)]"
    by (simp add: spec_temp_candidates_def two_digits_def digit_val_def float_of_int_small rd_375)
  have f: "filter spec_has_fraction [Fin 50, Fin 12] = []"
    "filter spec_has_fraction [Fin 80, Fin 0, Fin 80] = []"
    "filter spec_has_fraction [Fin 37, Fin 75, Fin (75 / 2)] = [Fin (75 / 2)]"
    by (simp_all add: spec_has_fraction_def floor_rat_numeral)
  have r1: "repair_temp (Some ''5012'') = Some (Fin 12)"
    using repair_temp_ambiguous [of "''5012''"] d(1)
    by (simp add: Let_def c1 spec_has_fraction_def)
  have r2: "repair_temp (Some ''800'') = Some (Fin 0)"
    using repair_temp_ambiguous [of "''800''"] d(2)
    by (simp add: Let_def c2 spec_has_fraction_def)
  have r3: "repair_temp (Some ''9999'') = None"
    using repair_temp_ambiguous [of "''9999''"] d(3) by (simp add: Let_def c3)
  show ?thesis
    using d(1) c1 c2 c3 c4 f(3) r1 r2 r3 by simp
qed

section \<open>Scores\<close>

text \<open>A float that is at least 1/32, or infinite.\<close>

lemma round_double_big:
  assumes "1 / 32 \<le> x"
  shows "round_double x = PInf \<or> (\<exists>r. round_double x = Fin r \<and> 1 / 32 \<le> r)"
proof -
  have "2 powi (- 5) \<le> x" using assms by (simp add: power_int_def power_one_over)
  from round_double_ge [OF this] show ?thesis by (simp add: power_int_def power_one_over)
qed

lemma fadd_big:
  assumes "a = PInf \<or> (\<exists>r. a = Fin r \<and> 0 \<le> r)" "b = PInf \<or> (\<exists>r. b = Fin r \<and> 1 / 32 \<le> r)"
  shows "fadd a b = PInf \<or> (\<exists>r. fadd a b = Fin r \<and> 1 / 32 \<le> r)"
    and "fadd b a = PInf \<or> (\<exists>r. fadd b a = Fin r \<and> 1 / 32 \<le> r)"
proof -
  have "(fadd a b = PInf \<or> (\<exists>r. fadd a b = Fin r \<and> 1 / 32 \<le> r)) \<and>
        (fadd b a = PInf \<or> (\<exists>r. fadd b a = Fin r \<and> 1 / 32 \<le> r))"
  proof (cases "a = PInf \<or> b = PInf")
    case True
    then show ?thesis using assms by (cases a; cases b) auto
  next
    case False
    then obtain x y where xy: "a = Fin x" "0 \<le> x" "b = Fin y" "1 / 32 \<le> y" using assms by auto
    then have "1 / 32 \<le> x + y" "1 / 32 \<le> y + x" by simp_all
    from round_double_big [OF this(1)] round_double_big [OF this(2)] show ?thesis
      by (simp add: xy)
  qed
  then show "fadd a b = PInf \<or> (\<exists>r. fadd a b = Fin r \<and> 1 / 32 \<le> r)"
    and "fadd b a = PInf \<or> (\<exists>r. fadd b a = Fin r \<and> 1 / 32 \<le> r)" by simp_all
qed

lemma score_key_empty: "score_key [] (Fin 0) = Fin 0"
  by (simp add: score_key_def remove_spaces_def extract_num_str_def sign_first_def round_double_def)

lemma remove_spaces_idem: "remove_spaces (remove_spaces t) = remove_spaces t"
  by (simp add: remove_spaces_def)

lemma score_key_pos:
  assumes "extract_num_str (remove_spaces t) \<noteq> None" "fle (Fin 0) s"
  shows "fgt (score_key t s) (Fin 0)"
proof -
  define c05 where "c05 = round_double (5 / 100)"
  define c08 where "c08 = round_double (8 / 100)"
  have b05: "c05 = PInf \<or> (\<exists>r. c05 = Fin r \<and> 1 / 32 \<le> r)"
    unfolding c05_def by (rule round_double_big) simp
  have b08: "c08 = PInf \<or> (\<exists>r. c08 = Fin r \<and> 1 / 32 \<le> r)"
    unfolding c08_def by (rule round_double_big) simp
  obtain m where m: "extract_num_str (remove_spaces t) = Some m" using assms(1) by auto
  then have "search_num (remove_spaces t) = Some m"
    by (auto simp: extract_num_str_def remove_spaces_idem split: if_splits)
  then have "numeric_str m" by (rule search_num_numeric)
  then have mne: "m \<noteq> []" using numeric_str_parses by blast
  define b1 where "b1 = fadd (Fin 0) c05"
  define b2 where "b2 = (if contains ''.'' (remove_spaces t) then fadd b1 c05 else b1)"
  define b3 where "b3 = (if sign_first (remove_spaces t) then fadd b2 c08 else b2)"
  have big1: "b1 = PInf \<or> (\<exists>r. b1 = Fin r \<and> 1 / 32 \<le> r)"
    unfolding b1_def using b05 by (intro fadd_big(1)) simp_all
  then have nn1: "b1 = PInf \<or> (\<exists>r. b1 = Fin r \<and> 0 \<le> r)" by auto
  have big2: "b2 = PInf \<or> (\<exists>r. b2 = Fin r \<and> 1 / 32 \<le> r)"
    unfolding b2_def using big1 fadd_big(1) [OF nn1 b05] by simp
  then have nn2: "b2 = PInf \<or> (\<exists>r. b2 = Fin r \<and> 0 \<le> r)" by auto
  have big3: "b3 = PInf \<or> (\<exists>r. b3 = Fin r \<and> 1 / 32 \<le> r)"
    unfolding b3_def using big2 fadd_big(1) [OF nn2 b08] by simp
  have s0: "s = PInf \<or> (\<exists>r. s = Fin r \<and> 0 \<le> r)" using assms(2) by (cases s) simp_all
  have sk: "score_key t s = fadd s b3"
    using m mne by (simp add: score_key_def Let_def b3_def b2_def b1_def c05_def c08_def)
  from fadd_big(1) [OF s0 big3] show ?thesis by (auto simp: sk fgt_def)
qed

lemma sign_first_has_num:
  assumes "sign_first t"
  shows "extract_num_str (remove_spaces t) \<noteq> None"
proof -
  from assms obtain c d r where r: "remove_spaces t = c # d # r" and cd: "is_sign c" "is_digit d"
    by (auto simp: sign_first_def split: list.splits)
  have "remove_spaces (c # d # r) = c # d # r" using remove_spaces_idem [of t] by (simp add: r)
  then show ?thesis using cd by (simp add: extract_num_str_def r)
qed

section \<open>The loops that keep the best reading\<close>

lemma py_max_key_in: "py_max_key k m ys \<in> set (m # ys)"
  by (induction ys arbitrary: m) auto

lemma py_max_key_greatest_aux:
  "\<forall>z \<in> Z. \<not> fgt (k z) (k m) \<Longrightarrow>
   \<forall>z \<in> Z \<union> set (m # ys). \<not> fgt (k z) (k (py_max_key k m ys))"
proof (induction ys arbitrary: m Z)
  case Nil
  then show ?case by (simp add: fgt_def flt_irrefl)
next
  case (Cons y ys)
  let ?m = "if fgt (k y) (k m) then y else m"
  have "\<forall>z \<in> Z \<union> {m, y}. \<not> fgt (k z) (k ?m)"
    using Cons.prems flt_trans [of "k m" "k y" "k m"]
    by (auto simp: fgt_def flt_irrefl dest: flt_trans)
  from Cons.IH [OF this] show ?case by auto
qed

lemma py_max_key_greatest: "y \<in> set (m # ys) \<Longrightarrow> \<not> fgt (k y) (k (py_max_key k m ys))"
  using py_max_key_greatest_aux [of "{}" k m ys] by auto

text \<open>The loop of the probe: the result is the start or a sample that beats it, and no sample beats the result.\<close>

lemma probe_loop_result:
  "probe_loop rd r xs b = b \<or>
   (\<exists>si \<in> set xs. probe_loop rd r xs b = rd r (snd si) \<and>
      fgt (score_key (fst (rd r (snd si))) (snd (rd r (snd si)))) (score_key (fst b) (snd b)))"
proof (induction xs arbitrary: b)
  case Nil
  then show ?case by simp
next
  case (Cons x xs)
  obtain t s where ts: "rd r (snd x) = (t, s)" by (cases "rd r (snd x)")
  show ?case
  proof (cases "fgt (score_key t s) (score_key (fst b) (snd b))")
    case True
    from Cons.IH [of "(t, s)"] True show ?thesis
      by (auto simp: ts fgt_def dest: flt_trans)
  next
    case False
    from Cons.IH [of b] False show ?thesis by (auto simp: ts)
  qed
qed

lemma probe_loop_greatest:
  "\<not> fgt (score_key (fst b) (snd b))
       (score_key (fst (probe_loop rd r xs b)) (snd (probe_loop rd r xs b))) \<and>
   (\<forall>si \<in> set xs.
      \<not> fgt (score_key (fst (rd r (snd si))) (snd (rd r (snd si))))
           (score_key (fst (probe_loop rd r xs b)) (snd (probe_loop rd r xs b))))"
proof (induction xs arbitrary: b)
  case Nil
  then show ?case by (simp add: fgt_def flt_irrefl)
next
  case (Cons x xs)
  obtain t s where ts: "rd r (snd x) = (t, s)" by (cases "rd r (snd x)")
  show ?case
  proof (cases "fgt (score_key t s) (score_key (fst b) (snd b))")
    case True
    from Cons.IH [of "(t, s)"] True show ?thesis
      by (auto simp: ts fgt_def dest: flt_trans flt_asym)
  next
    case False
    from Cons.IH [of b] False probe_loop_result [of rd r xs b] show ?thesis
      by (auto simp: ts fgt_def dest: flt_trans)
  qed
qed

lemma score_key_not_NaN: "fgt (score_key t s) x \<Longrightarrow> s \<noteq> NaN"
proof
  assume "fgt (score_key t s) x" "s = NaN"
  then have "flt x NaN" by (simp add: score_key_def Let_def fgt_def)
  then show False using flt_not_NaN by blast
qed

lemma probe_conf_not_NaN: "snd (probe rd a r) \<noteq> NaN"
  using probe_loop_result [of rd r "items a" "([], Fin 0)"]
  by (auto simp: probe_def dest: score_key_not_NaN)

lemma read_loop_step:
  "read_loop rd r (x # xs) b =
     read_loop rd r xs
       (if fgt (reading_score (reading_of rd r x)) (reading_score b) then reading_of rd r x else b)"
  by (cases "rd r (snd x)") (simp add: reading_of_def reading_score_def)

lemma read_loop_first_max:
  "(read_loop rd r xs b = b \<and>
      (\<forall>x \<in> set xs. \<not> fgt (reading_score (reading_of rd r x)) (reading_score b))) \<or>
   (\<exists>n < length xs.
      read_loop rd r xs b = reading_of rd r (xs ! n) \<and>
      fgt (reading_score (read_loop rd r xs b)) (reading_score b) \<and>
      (\<forall>x \<in> set xs.
         \<not> fgt (reading_score (reading_of rd r x)) (reading_score (read_loop rd r xs b))) \<and>
      (\<forall>m < n.
         \<not> fle (reading_score (read_loop rd r xs b)) (reading_score (reading_of rd r (xs ! m)))))"
proof (induction xs arbitrary: b)
  case Nil
  then show ?case by simp
next
  case (Cons x xs)
  define X where "X = reading_score (reading_of rd r x)"
  define b' where "b' = (if fgt X (reading_score b) then reading_of rd r x else b)"
  define R where "R = read_loop rd r xs b'"
  have step: "read_loop rd r (x # xs) b = R"
    by (simp only: read_loop_step R_def b'_def X_def)
  from Cons.IH [of b'] consider
    (keep) "R = b'" "\<forall>y \<in> set xs. \<not> fgt (reading_score (reading_of rd r y)) (reading_score b')"
  | (later) n where "n < length xs" "R = reading_of rd r (xs ! n)"
      "fgt (reading_score R) (reading_score b')"
      "\<forall>y \<in> set xs. \<not> fgt (reading_score (reading_of rd r y)) (reading_score R)"
      "\<forall>m < n. \<not> fle (reading_score R) (reading_score (reading_of rd r (xs ! m)))"
    unfolding R_def by blast
  then show ?case
  proof cases
    case keep
    show ?thesis
    proof (cases "fgt X (reading_score b)")
      case True
      then have b': "b' = reading_of rd r x" by (simp add: b'_def)
      have "0 < length (x # xs)" by simp
      moreover have "R = reading_of rd r ((x # xs) ! 0)" using keep(1) b' by simp
      moreover have "fgt (reading_score R) (reading_score b)" using True keep(1) b' X_def by simp
      moreover have "\<forall>y \<in> set (x # xs). \<not> fgt (reading_score (reading_of rd r y)) (reading_score R)"
        using keep b' by (auto simp: fgt_def flt_irrefl)
      ultimately show ?thesis unfolding step by (intro disjI2 exI [of _ 0]) simp
    next
      case False
      then have "b' = b" by (simp add: b'_def)
      then show ?thesis unfolding step using keep False X_def by auto
    qed
  next
    case later
    have beats: "fgt (reading_score R) (reading_score b)"
    proof (cases "fgt X (reading_score b)")
      case True
      then have "b' = reading_of rd r x" by (simp add: b'_def)
      then show ?thesis using later(3) True by (auto simp: fgt_def X_def dest: flt_trans)
    next
      case False
      then show ?thesis using later(3) by (simp add: b'_def)
    qed
    have xR: "\<not> fgt X (reading_score R)" and xfirst: "\<not> fle (reading_score R) X"
    proof -
      show "\<not> fgt X (reading_score R)"
      proof (cases "fgt X (reading_score b)")
        case True
        then have "b' = reading_of rd r x" by (simp add: b'_def)
        then show ?thesis using later(3) by (auto simp: fgt_def X_def dest: flt_asym)
      next
        case False
        then show ?thesis using later(3) by (auto simp: b'_def fgt_def dest: flt_trans)
      qed
      show "\<not> fle (reading_score R) X"
      proof (cases "fgt X (reading_score b)")
        case True
        then have "b' = reading_of rd r x" by (simp add: b'_def)
        then show ?thesis using later(3) by (auto simp: fgt_def X_def dest: flt_not_fle)
      next
        case False
        then show ?thesis using later(3) by (auto simp: b'_def fgt_def dest: flt_fle_trans)
      qed
    qed
    have "Suc n < length (x # xs)" using later(1) by simp
    moreover have "R = reading_of rd r ((x # xs) ! Suc n)" using later(2) by simp
    moreover have "\<forall>y \<in> set (x # xs). \<not> fgt (reading_score (reading_of rd r y)) (reading_score R)"
      using later(4) xR by (simp add: X_def)
    moreover have "\<forall>m < Suc n. \<not> fle (reading_score R) (reading_score (reading_of rd r ((x # xs) ! m)))"
    proof (intro allI impI)
      fix m assume "m < Suc n"
      then show "\<not> fle (reading_score R) (reading_score (reading_of rd r ((x # xs) ! m)))"
        using later(5) xfirst by (cases m) (simp_all add: X_def)
    qed
    ultimately show ?thesis unfolding step using beats by (intro disjI2 exI [of _ "Suc n"]) simp
  qed
qed

section \<open>Groups\<close>

lemma bind_present: "Option.bind x f = Some y \<Longrightarrow> x \<noteq> None"
  by (cases x) simp_all

lemma process_group_complete:
  assumes "complete imread d"
  shows "process_group rd imread gid d = Some (result_record gid (group_evaluation rd imread d))"
proof -
  from assms obtain a1 a2 a3 t1 t2 t3 d1 d2 d3 where b:
    "Option.bind (d ''angle_sr'') imread = Some a1"
    "Option.bind (d ''angle_v7'') imread = Some a2"
    "Option.bind (d ''angle_v8'') imread = Some a3"
    "Option.bind (d ''temp_sr'') imread = Some t1"
    "Option.bind (d ''temp_v7'') imread = Some t2"
    "Option.bind (d ''temp_v8'') imread = Some t3"
    "Option.bind (d ''depth_sr'') imread = Some d1"
    "Option.bind (d ''depth_v7'') imread = Some d2"
    "Option.bind (d ''depth_v8'') imread = Some d3"
    by (auto simp: complete_def required_def)
  have present: "filter (\<lambda>k. d k = None) required = []"
    using b [THEN bind_present] by (simp add: required_def)
  have load: "load_images imread d required Map.empty =
      Some (Map.empty(''angle_sr'' \<mapsto> a1, ''angle_v7'' \<mapsto> a2, ''angle_v8'' \<mapsto> a3,
                  ''temp_sr'' \<mapsto> t1, ''temp_v7'' \<mapsto> t2, ''temp_v8'' \<mapsto> t3,
                  ''depth_sr'' \<mapsto> d1, ''depth_v7'' \<mapsto> d2, ''depth_v8'' \<mapsto> d3))"
    by (simp add: required_def b)
  show ?thesis
    by (simp add: process_group_def present load field_imgs_def group_evaluation_def decoded_def b)
qed

section \<open>The sample groups, evaluated\<close>

lemma SCORE_THRESHOLD_eq: "SCORE_THRESHOLD = Fin (3152519739159347 / 4503599627370496)"
  unfolding SCORE_THRESHOLD_def
  by (subst round_double_eval [where e = "- 1"])
     (simp_all add: power_int_def power_one_over round_half_even_def Let_def floor_rat_numeral)

lemma fgt_irrefl [simp]: "\<not> fgt a a"
  by (simp add: fgt_def flt_irrefl)

lemma complete_sample: "complete sample_imread sample_files"
  by (simp add: complete_def required_def sample_files_def sample_imread_def)

lemma decoded_sample:
  "decoded sample_imread sample_files ''angle'' = \<lparr>sr = ''angle_sr'', v7 = ''angle_v7'', v8 = ''angle_v8''\<rparr>"
  "decoded sample_imread sample_files ''temp'' = \<lparr>sr = ''temp_sr'', v7 = ''temp_v7'', v8 = ''temp_v8''\<rparr>"
  "decoded sample_imread sample_files ''depth'' = \<lparr>sr = ''depth_sr'', v7 = ''depth_v7'', v8 = ''depth_v8''\<rparr>"
  by (simp_all add: decoded_def required_def sample_files_def sample_imread_def)

lemma choose_rotation_blank:
  "choose_rotation blank_reader a t d = (0, ''fallback_best_angle_score'')"
  by (simp add: choose_rotation_def probe_def items_def blank_reader_def score_key_empty
      sign_first_def remove_spaces_def ROTATIONS_def hint_score_def has_temp_hint_def
      has_depth_hint_def py_lower_def Let_def)

lemma read_field_best_blank:
  "read_field_best blank_reader a r = \<lparr>src = ''none'', txt' = [], sc = Fin 0\<rparr>"
  by (simp add: read_field_best_def items_def blank_reader_def score_key_empty)

lemma evaluate_blank:
  "evaluate blank_reader a t d =
     \<lparr>rot = 0, rot_reason = ''fallback_best_angle_score'',
      angle_best = \<lparr>src = ''none'', txt' = [], sc = Fin 0\<rparr>,
      temp_best = \<lparr>src = ''none'', txt' = [], sc = Fin 0\<rparr>,
      depth_best = \<lparr>src = ''none'', txt' = [], sc = Fin 0\<rparr>,
      angle_final = None, temp_final = None, depth_final = None,
      mistakes = [''angle_invalid'', ''temp_invalid'', ''depth_invalid'',
                  ''angle_low_score'', ''temp_low_score'', ''depth_low_score''],
      status = ''MISTAKE''\<rparr>"
  by (simp add: evaluate_def choose_rotation_blank read_field_best_blank extract_num_str_def
      normalize_angle_def repair_temp_def depth_valid_def SCORE_THRESHOLD_eq Let_def)

lemma score_key_beats_empty:
  "extract_num_str (remove_spaces t) \<noteq> None \<Longrightarrow> fle (Fin 0) s \<Longrightarrow>
   fgt (score_key t s) (Fin 0) = True"
  by (simp add: score_key_pos)

lemma clear_scores:
  "fgt (score_key ''+5'' (Fin 1)) (Fin 0)"
  "fgt (score_key ''37.5C'' (Fin 1)) (Fin 0)"
  "fgt (score_key ''-5m'' (Fin 1)) (Fin 0)"
  by (rule score_key_pos; simp add: extract_num_str_def string_defs unsigned_match_def)+

lemma clear_reader_simps:
  "clear_reader r ''angle_sr'' = (''+5'', Fin 1)"
  "clear_reader r ''angle_v7'' = (''+5'', Fin 1)"
  "clear_reader r ''angle_v8'' = (''+5'', Fin 1)"
  "clear_reader r ''temp_sr'' = (''37.5C'', Fin 1)"
  "clear_reader r ''temp_v7'' = (''37.5C'', Fin 1)"
  "clear_reader r ''temp_v8'' = (''37.5C'', Fin 1)"
  "clear_reader r ''depth_sr'' = (''-5m'', Fin 1)"
  "clear_reader r ''depth_v7'' = (''-5m'', Fin 1)"
  "clear_reader r ''depth_v8'' = (''-5m'', Fin 1)"
  by (simp_all add: clear_reader_def)

lemma probe_clear:
  "probe clear_reader \<lparr>sr = ''angle_sr'', v7 = ''angle_v7'', v8 = ''angle_v8''\<rparr> r = (''+5'', Fin 1)"
  by (simp add: probe_def items_def clear_reader_simps score_key_empty clear_scores)

lemma choose_rotation_clear:
  "choose_rotation clear_reader \<lparr>sr = ''angle_sr'', v7 = ''angle_v7'', v8 = ''angle_v8''\<rparr> t d =
     (0, ''angle_sign_first'')"
  by (simp add: choose_rotation_def probe_clear ROTATIONS_def sign_first_def string_defs Let_def)

lemma read_clear:
  "read_field_best clear_reader \<lparr>sr = ''angle_sr'', v7 = ''angle_v7'', v8 = ''angle_v8''\<rparr> r =
     \<lparr>src = ''sr'', txt' = ''+5'', sc = Fin 1\<rparr>"
  "read_field_best clear_reader \<lparr>sr = ''temp_sr'', v7 = ''temp_v7'', v8 = ''temp_v8''\<rparr> r =
     \<lparr>src = ''sr'', txt' = ''37.5C'', sc = Fin 1\<rparr>"
  "read_field_best clear_reader \<lparr>sr = ''depth_sr'', v7 = ''depth_v7'', v8 = ''depth_v8''\<rparr> r =
     \<lparr>src = ''sr'', txt' = ''-5m'', sc = Fin 1\<rparr>"
  by (simp_all add: read_field_best_def items_def clear_reader_simps score_key_empty clear_scores)

lemma clear_finals:
  "normalize_angle (extract_num_str ''+5'') = Some ''+5''"
  "repair_temp (extract_num_str ''37.5C'') = Some (Fin (75 / 2))"
  "extract_num_str ''-5m'' = Some ''-5''"
  "depth_valid (Some ''-5'')"
proof -
  show "normalize_angle (extract_num_str ''+5'') = Some ''+5''"
    using round_double_of_int [of 5]
    by (simp add: extract_num_str_def unsigned_match_def normalize_angle_def string_defs
        py_float_def ANGLE_LIMIT_ABS_eq fgt_def)
  have f: "py_float ''37.5'' = Some (Fin (75 / 2))"
    by (simp add: py_float_def is_digit_def digits_val_def digit_val_def rd_375)
  show "repair_temp (extract_num_str ''37.5C'') = Some (Fin (75 / 2))"
    by (simp add: extract_num_str_def unsigned_match_def repair_temp_def string_defs
        TEMP_MAX_eq f)
  show "extract_num_str ''-5m'' = Some ''-5''"
    by (simp add: extract_num_str_def unsigned_match_def string_defs)
  show "depth_valid (Some ''-5'')"
    by (simp add: depth_valid_def depth_shape_def at_end_def string_defs)
qed

lemma evaluate_clear:
  "group_evaluation clear_reader sample_imread sample_files =
     \<lparr>rot = 0, rot_reason = ''angle_sign_first'',
      angle_best = \<lparr>src = ''sr'', txt' = ''+5'', sc = Fin 1\<rparr>,
      temp_best = \<lparr>src = ''sr'', txt' = ''37.5C'', sc = Fin 1\<rparr>,
      depth_best = \<lparr>src = ''sr'', txt' = ''-5m'', sc = Fin 1\<rparr>,
      angle_final = Some ''+5'', temp_final = Some (Fin (75 / 2)), depth_final = Some ''-5'',
      mistakes = [], status = ''OK''\<rparr>"
  by (simp add: group_evaluation_def decoded_sample evaluate_def choose_rotation_clear
      read_clear clear_finals SCORE_THRESHOLD_eq Let_def)

section \<open>What the evaluation of a group holds\<close>

lemma evaluate_status_eq:
  "status (evaluate rd a t d) = (if mistakes (evaluate rd a t d) = [] then ''OK'' else ''MISTAKE'')"
  by (simp add: evaluate_def Let_def case_prod_beta split del: if_split cong: if_cong)

lemma evaluate_status:
  "(status (evaluate rd a t d) = ''OK'') = (mistakes (evaluate rd a t d) = [])"
  "(status (evaluate rd a t d) = ''MISTAKE'') = (mistakes (evaluate rd a t d) \<noteq> [])"
  by (simp_all add: evaluate_status_eq)

lemma evaluate_bests:
  "angle_best (evaluate rd a t d) = read_field_best rd a (rot (evaluate rd a t d))"
  "temp_best (evaluate rd a t d) = read_field_best rd t (rot (evaluate rd a t d))"
  "depth_best (evaluate rd a t d) = read_field_best rd d (rot (evaluate rd a t d))"
  "(rot (evaluate rd a t d), rot_reason (evaluate rd a t d)) = choose_rotation rd a t d"
  by (simp_all add: evaluate_def Let_def case_prod_beta split del: if_split cong: if_cong)

lemma evaluate_finals:
  "angle_final (evaluate rd a t d) =
     normalize_angle (extract_num_str (txt' (angle_best (evaluate rd a t d))))"
  "temp_final (evaluate rd a t d) =
     repair_temp (extract_num_str (txt' (temp_best (evaluate rd a t d))))"
  "depth_final (evaluate rd a t d) =
     (if depth_valid (extract_num_str (txt' (depth_best (evaluate rd a t d))))
      then extract_num_str (txt' (depth_best (evaluate rd a t d))) else None)"
  by (simp_all add: evaluate_def Let_def case_prod_beta split del: if_split cong: if_cong)

lemma evaluate_mistakes:
  "mistakes (evaluate rd a t d) =
     (if angle_final (evaluate rd a t d) = None then [''angle_invalid''] else []) @
     (if temp_final (evaluate rd a t d) = None then [''temp_invalid''] else []) @
     (if depth_final (evaluate rd a t d) = None then [''depth_invalid''] else []) @
     (if flt (sc (angle_best (evaluate rd a t d))) SCORE_THRESHOLD then [''angle_low_score''] else []) @
     (if flt (sc (temp_best (evaluate rd a t d))) SCORE_THRESHOLD then [''temp_low_score''] else []) @
     (if flt (sc (depth_best (evaluate rd a t d))) SCORE_THRESHOLD then [''depth_low_score''] else [])"
  by (simp add: evaluate_def Let_def case_prod_beta split del: if_split cong: if_cong)

lemma flags_list:
  fixes x1 :: 'a
  assumes d: "distinct [x1, x2, x3, x4, x5, x6]"
    and ms: "ms = (if a then [x1] else []) @ (if b then [x2] else []) @
       (if c then [x3] else []) @ (if a' then [x4] else []) @
       (if b' then [x5] else []) @ (if c' then [x6] else [])"
  shows "(x1 \<in> set ms) = a" "(x2 \<in> set ms) = b" "(x3 \<in> set ms) = c"
    "(x4 \<in> set ms) = a'" "(x5 \<in> set ms) = b'" "(x6 \<in> set ms) = c'"
    "set ms \<subseteq> {x1, x2, x3, x4, x5, x6}" "distinct ms" "subseq ms [x1, x2, x3, x4, x5, x6]"
proof -
  show "(x1 \<in> set ms) = a" "(x2 \<in> set ms) = b" "(x3 \<in> set ms) = c"
    "(x4 \<in> set ms) = a'" "(x5 \<in> set ms) = b'" "(x6 \<in> set ms) = c'"
    using d by (auto simp: ms)
  show "set ms \<subseteq> {x1, x2, x3, x4, x5, x6}" by (auto simp: ms)
  show "distinct ms" using d by (auto simp: ms)
  have one: "subseq (if p then [x] else []) [x]" for p and x :: 'a by simp
  have "subseq ms ([x1] @ [x2] @ [x3] @ [x4] @ [x5] @ [x6])"
    unfolding ms by (intro list_emb_append_mono one)
  then show "subseq ms [x1, x2, x3, x4, x5, x6]" by simp
qed

lemma codes_distinct:
  "distinct [''angle_invalid'', ''temp_invalid'', ''depth_invalid'',
     ''angle_low_score'', ''temp_low_score'', ''depth_low_score'']"
  by simp

lemmas mistakes_members = flags_list [OF codes_distinct evaluate_mistakes]

lemma result_record_get:
  "jget (result_record gid ev) ''id'' = Some (JStr gid)"
  "jget (result_record gid ev) ''status'' = Some (JStr (status ev))"
  "jget (result_record gid ev) ''rotation'' = Some (JInt (rot ev))"
  "jget (result_record gid ev) ''rotation_reason'' = Some (JStr (rot_reason ev))"
  "jget (result_record gid ev) ''mistakes'' = Some (JList (map JStr (mistakes ev)))"
  "jpath (result_record gid ev) [''values'', ''temp''] =
     Some (case temp_final ev of Some v \<Rightarrow> JNum v | None \<Rightarrow> JStr ''UNREADABLE'')"
  "jpath (result_record gid ev) [''values'', ''depth''] =
     Some (case depth_final ev of Some s \<Rightarrow> JStr s | None \<Rightarrow> JStr ''UNREADABLE'')"
  "jpath (result_record gid ev) [''values'', ''angle''] =
     Some (case angle_final ev of Some s \<Rightarrow> JStr s | None \<Rightarrow> JStr ''UNREADABLE'')"
  "jpath (result_record gid ev) [''sources'', ''temp''] = Some (JStr (src (temp_best ev)))"
  "jpath (result_record gid ev) [''sources'', ''depth''] = Some (JStr (src (depth_best ev)))"
  "jpath (result_record gid ev) [''sources'', ''angle''] = Some (JStr (src (angle_best ev)))"
  "jpath (result_record gid ev) [''scores'', ''temp''] = Some (JNum (sc (temp_best ev)))"
  "jpath (result_record gid ev) [''scores'', ''depth''] = Some (JNum (sc (depth_best ev)))"
  "jpath (result_record gid ev) [''scores'', ''angle''] = Some (JNum (sc (angle_best ev)))"
  "jpath (result_record gid ev) [''raw_text'', ''temp''] = Some (JStr (txt' (temp_best ev)))"
  "jpath (result_record gid ev) [''raw_text'', ''depth''] = Some (JStr (txt' (depth_best ev)))"
  "jpath (result_record gid ev) [''raw_text'', ''angle''] = Some (JStr (txt' (angle_best ev)))"
  by (simp_all add: result_record_def)

section \<open>Status and reasons of a group\<close>

text \<open>
  Claim C2. For a group whose nine required images are present and decodable the record
  holds the status and the reasons of its evaluation. The status is \<open>OK\<close> exactly when
  there is no reason, and \<open>MISTAKE\<close> otherwise. The reason \<open>angle_invalid\<close>,
  \<open>temp_invalid\<close> or \<open>depth_invalid\<close> is there exactly when the repaired value of the
  field is \<open>None\<close>, and \<open>angle_low_score\<close>, \<open>temp_low_score\<close> or \<open>depth_low_score\<close>
  exactly when the confidence of the best reading of the field is below 0.70; the two
  tests of a field do not depend on each other, and there is no other reason.
\<close>

theorem group_status:
  "complete imread d \<longrightarrow>
     (let ev = group_evaluation rd imread d; r = result_record gid ev
      in process_group rd imread gid d = Some r \<and>
         jget r ''status'' = Some (JStr (status ev)) \<and>
         jget r ''mistakes'' = Some (JList (map JStr (mistakes ev))) \<and>
         (status ev = ''OK'') = (mistakes ev = []) \<and>
         (status ev = ''MISTAKE'') = (mistakes ev \<noteq> []) \<and>
         angle_final ev = normalize_angle (extract_num_str (txt' (angle_best ev))) \<and>
         temp_final ev = repair_temp (extract_num_str (txt' (temp_best ev))) \<and>
         depth_final ev =
           (if depth_valid (extract_num_str (txt' (depth_best ev)))
            then extract_num_str (txt' (depth_best ev)) else None) \<and>
         (''angle_invalid'' \<in> set (mistakes ev)) = (angle_final ev = None) \<and>
         (''temp_invalid'' \<in> set (mistakes ev)) = (temp_final ev = None) \<and>
         (''depth_invalid'' \<in> set (mistakes ev)) = (depth_final ev = None) \<and>
         (''angle_low_score'' \<in> set (mistakes ev)) = flt (sc (angle_best ev)) SCORE_THRESHOLD \<and>
         (''temp_low_score'' \<in> set (mistakes ev)) = flt (sc (temp_best ev)) SCORE_THRESHOLD \<and>
         (''depth_low_score'' \<in> set (mistakes ev)) = flt (sc (depth_best ev)) SCORE_THRESHOLD \<and>
         set (mistakes ev) \<subseteq>
           {''angle_invalid'', ''temp_invalid'', ''depth_invalid'',
            ''angle_low_score'', ''temp_low_score'', ''depth_low_score''})"
proof
  assume c: "complete imread d"
  show "let ev = group_evaluation rd imread d; r = result_record gid ev
      in process_group rd imread gid d = Some r \<and>
         jget r ''status'' = Some (JStr (status ev)) \<and>
         jget r ''mistakes'' = Some (JList (map JStr (mistakes ev))) \<and>
         (status ev = ''OK'') = (mistakes ev = []) \<and>
         (status ev = ''MISTAKE'') = (mistakes ev \<noteq> []) \<and>
         angle_final ev = normalize_angle (extract_num_str (txt' (angle_best ev))) \<and>
         temp_final ev = repair_temp (extract_num_str (txt' (temp_best ev))) \<and>
         depth_final ev =
           (if depth_valid (extract_num_str (txt' (depth_best ev)))
            then extract_num_str (txt' (depth_best ev)) else None) \<and>
         (''angle_invalid'' \<in> set (mistakes ev)) = (angle_final ev = None) \<and>
         (''temp_invalid'' \<in> set (mistakes ev)) = (temp_final ev = None) \<and>
         (''depth_invalid'' \<in> set (mistakes ev)) = (depth_final ev = None) \<and>
         (''angle_low_score'' \<in> set (mistakes ev)) = flt (sc (angle_best ev)) SCORE_THRESHOLD \<and>
         (''temp_low_score'' \<in> set (mistakes ev)) = flt (sc (temp_best ev)) SCORE_THRESHOLD \<and>
         (''depth_low_score'' \<in> set (mistakes ev)) = flt (sc (depth_best ev)) SCORE_THRESHOLD \<and>
         set (mistakes ev) \<subseteq>
           {''angle_invalid'', ''temp_invalid'', ''depth_invalid'',
            ''angle_low_score'', ''temp_low_score'', ''depth_low_score''}"
    unfolding Let_def group_evaluation_def
    by (intro conjI process_group_complete [OF c, unfolded group_evaluation_def]
          result_record_get evaluate_status evaluate_finals mistakes_members)
qed

text \<open>
  A group that the recognizer cannot read has the six reasons, the two of each field,
  and the status \<open>MISTAKE\<close>; a group read clearly has none and the status \<open>OK\<close>.
\<close>

theorem group_status_witness:
  "complete sample_imread sample_files \<and>
   process_group blank_reader sample_imread ''g1'' sample_files =
     Some (result_record ''g1'' (group_evaluation blank_reader sample_imread sample_files)) \<and>
   status (group_evaluation blank_reader sample_imread sample_files) = ''MISTAKE'' \<and>
   mistakes (group_evaluation blank_reader sample_imread sample_files) =
     [''angle_invalid'', ''temp_invalid'', ''depth_invalid'',
      ''angle_low_score'', ''temp_low_score'', ''depth_low_score''] \<and>
   process_group clear_reader sample_imread ''g2'' sample_files =
     Some (result_record ''g2'' (group_evaluation clear_reader sample_imread sample_files)) \<and>
   status (group_evaluation clear_reader sample_imread sample_files) = ''OK'' \<and>
   mistakes (group_evaluation clear_reader sample_imread sample_files) = []"
  using group_status [of sample_imread sample_files blank_reader "''g1''"]
    group_status [of sample_imread sample_files clear_reader "''g2''"]
    complete_sample
  by (simp add: Let_def evaluate_clear) (simp add: group_evaluation_def evaluate_blank)

section \<open>The order of the reasons\<close>

text \<open>
  Claim C9. In the record of a group that was evaluated, the list of reasons is a
  subsequence of \<open>angle_invalid\<close>, \<open>temp_invalid\<close>, \<open>depth_invalid\<close>,
  \<open>angle_low_score\<close>, \<open>temp_low_score\<close>, \<open>depth_low_score\<close>, in that order, and no
  reason is there twice.
\<close>

theorem mistakes_order:
  "complete imread d \<longrightarrow>
     (let ev = group_evaluation rd imread d; r = result_record gid ev
      in process_group rd imread gid d = Some r \<and>
         jget r ''mistakes'' = Some (JList (map JStr (mistakes ev))) \<and>
         subseq (mistakes ev)
           [''angle_invalid'', ''temp_invalid'', ''depth_invalid'',
            ''angle_low_score'', ''temp_low_score'', ''depth_low_score''] \<and>
         distinct (mistakes ev))"
proof
  assume c: "complete imread d"
  show "let ev = group_evaluation rd imread d; r = result_record gid ev
      in process_group rd imread gid d = Some r \<and>
         jget r ''mistakes'' = Some (JList (map JStr (mistakes ev))) \<and>
         subseq (mistakes ev)
           [''angle_invalid'', ''temp_invalid'', ''depth_invalid'',
            ''angle_low_score'', ''temp_low_score'', ''depth_low_score''] \<and>
         distinct (mistakes ev)"
    unfolding Let_def group_evaluation_def
    by (intro conjI process_group_complete [OF c, unfolded group_evaluation_def]
          result_record_get mistakes_members)
qed

text \<open>The record of the group that the recognizer cannot read lists the six reasons.\<close>

theorem mistakes_order_witness:
  "complete sample_imread sample_files \<and>
   Option.bind (process_group blank_reader sample_imread ''g1'' sample_files)
     (\<lambda>r. jget r ''mistakes'') =
     Some (JList [JStr ''angle_invalid'', JStr ''temp_invalid'', JStr ''depth_invalid'',
                  JStr ''angle_low_score'', JStr ''temp_low_score'', JStr ''depth_low_score'']) \<and>
   subseq (mistakes (group_evaluation blank_reader sample_imread sample_files))
     [''angle_invalid'', ''temp_invalid'', ''depth_invalid'',
      ''angle_low_score'', ''temp_low_score'', ''depth_low_score''] \<and>
   distinct (mistakes (group_evaluation blank_reader sample_imread sample_files))"
  using mistakes_order [of sample_imread sample_files blank_reader "''g1''"] complete_sample
  by (simp add: Let_def) (simp add: group_evaluation_def evaluate_blank)

section \<open>The value of the depth\<close>

text \<open>
  Claim C10. For a group that was evaluated, the value of the depth in the record is
  the numeric substring of the best depth text as it is, a string with its sign, when
  \<open>depth_valid\<close> accepts that substring, and \<open>UNREADABLE\<close> otherwise; \<open>depth_valid\<close>
  accepts \<open>"-5"\<close>, which is emitted as \<open>"-5"\<close>. The value of the temperature is the
  float that \<open>repair_temp\<close> returns.
\<close>

theorem depth_value_verbatim:
  "(complete imread d \<longrightarrow>
     (let ev = group_evaluation rd imread d; r = result_record gid ev;
          depth_num = extract_num_str (txt' (depth_best ev));
          temp_num = extract_num_str (txt' (temp_best ev))
      in process_group rd imread gid d = Some r \<and>
         jpath r [''raw_text'', ''depth''] = Some (JStr (txt' (depth_best ev))) \<and>
         depth_final ev = (if depth_valid depth_num then depth_num else None) \<and>
         jpath r [''values'', ''depth''] =
           Some (case depth_final ev of Some s \<Rightarrow> JStr s | None \<Rightarrow> JStr ''UNREADABLE'') \<and>
         temp_final ev = repair_temp temp_num \<and>
         jpath r [''values'', ''temp''] =
           Some (case temp_final ev of Some v \<Rightarrow> JNum v | None \<Rightarrow> JStr ''UNREADABLE''))) \<and>
   extract_num_str ''-5m'' = Some ''-5'' \<and> depth_valid (Some ''-5'')"
proof -
  have "let ev = group_evaluation rd imread d; r = result_record gid ev;
          depth_num = extract_num_str (txt' (depth_best ev));
          temp_num = extract_num_str (txt' (temp_best ev))
      in process_group rd imread gid d = Some r \<and>
         jpath r [''raw_text'', ''depth''] = Some (JStr (txt' (depth_best ev))) \<and>
         depth_final ev = (if depth_valid depth_num then depth_num else None) \<and>
         jpath r [''values'', ''depth''] =
           Some (case depth_final ev of Some s \<Rightarrow> JStr s | None \<Rightarrow> JStr ''UNREADABLE'') \<and>
         temp_final ev = repair_temp temp_num \<and>
         jpath r [''values'', ''temp''] =
           Some (case temp_final ev of Some v \<Rightarrow> JNum v | None \<Rightarrow> JStr ''UNREADABLE'')"
    if c: "complete imread d"
    unfolding Let_def group_evaluation_def
    by (intro conjI process_group_complete [OF c, unfolded group_evaluation_def]
          result_record_get evaluate_finals)
  then show ?thesis using clear_finals(3,4) by simp
qed

text \<open>
  The group read clearly has the depth text \<open>-5m\<close>: the record holds the string \<open>-5\<close>
  for the depth and the float 37.5 for the temperature.
\<close>

theorem depth_value_verbatim_witness:
  "complete sample_imread sample_files \<and>
   Option.bind (process_group clear_reader sample_imread ''g2'' sample_files)
     (\<lambda>r. jpath r [''raw_text'', ''depth'']) = Some (JStr ''-5m'') \<and>
   Option.bind (process_group clear_reader sample_imread ''g2'' sample_files)
     (\<lambda>r. jpath r [''values'', ''depth'']) = Some (JStr ''-5'') \<and>
   Option.bind (process_group clear_reader sample_imread ''g2'' sample_files)
     (\<lambda>r. jpath r [''values'', ''temp'']) = Some (JNum (Fin (75 / 2)))"
proof -
  from depth_value_verbatim [of sample_imread sample_files clear_reader "''g2''"] complete_sample
  have "process_group clear_reader sample_imread ''g2'' sample_files =
          Some (result_record ''g2'' (group_evaluation clear_reader sample_imread sample_files))"
    by (simp add: Let_def)
  then show ?thesis using complete_sample by (simp add: evaluate_clear result_record_def)
qed

section \<open>The field reader\<close>

lemma initial_score: "reading_score \<lparr>src = ''none'', txt' = [], sc = Fin 0\<rparr> = Fin 0"
  by (simp add: reading_score_def score_key_empty)

lemma read_field_best_choice:
  "(read_field_best rd imgs r = \<lparr>src = ''none'', txt' = [], sc = Fin 0\<rparr> \<and>
      (\<forall>x \<in> set (items imgs). \<not> fgt (reading_score (reading_of rd r x)) (Fin 0))) \<or>
   (\<exists>n < 3.
      read_field_best rd imgs r = reading_of rd r (items imgs ! n) \<and>
      src (read_field_best rd imgs r) = [''sr'', ''v7'', ''v8''] ! n \<and>
      fgt (reading_score (read_field_best rd imgs r)) (Fin 0) \<and>
      (\<forall>x \<in> set (items imgs).
         \<not> fgt (reading_score (reading_of rd r x)) (reading_score (read_field_best rd imgs r))) \<and>
      (\<forall>m < n.
         \<not> fle (reading_score (read_field_best rd imgs r))
              (reading_score (reading_of rd r (items imgs ! m)))))"
proof -
  define b0 where "b0 = \<lparr>src = ''none'', txt' = [], sc = Fin 0\<rparr>"
  have s0: "reading_score b0 = Fin 0" unfolding b0_def by (rule initial_score)
  have len: "length (items imgs) = 3" by (simp add: items_def)
  have nm: "src (reading_of rd r (items imgs ! n)) = [''sr'', ''v7'', ''v8''] ! n" if "n < 3" for n
  proof -
    from that consider "n = 0" | "n = 1" | "n = 2" by linarith
    then show ?thesis by cases (simp_all add: reading_of_def items_def)
  qed
  from read_loop_first_max [of rd r "items imgs" b0]
  show ?thesis
    unfolding read_field_best_def b0_def [symmetric] s0 len
    using nm by (elim disjE exE conjE) (blast, metis)
qed

text \<open>
  Claim C6, as amended. The field reader returns the reading of the first variant, in
  the order \<open>sr\<close>, \<open>v7\<close>, \<open>v8\<close>, whose score is the highest, when that score exceeds
  0.0, the score of the empty reading that the loop starts from. When the score of no
  variant exceeds 0.0 it returns the source \<open>none\<close> with the empty text and the
  confidence 0.0. For a group that was evaluated, the source it returns for a field is
  the entry of the field under \<open>sources\<close> in the record.
\<close>

theorem field_reader_choice:
  "((read_field_best rd imgs r = \<lparr>src = ''none'', txt' = [], sc = Fin 0\<rparr> \<and>
       (\<forall>x \<in> set (items imgs). \<not> fgt (reading_score (reading_of rd r x)) (Fin 0))) \<or>
    (\<exists>n < 3.
       read_field_best rd imgs r = reading_of rd r (items imgs ! n) \<and>
       src (read_field_best rd imgs r) = [''sr'', ''v7'', ''v8''] ! n \<and>
       fgt (reading_score (read_field_best rd imgs r)) (Fin 0) \<and>
       (\<forall>x \<in> set (items imgs).
          \<not> fgt (reading_score (reading_of rd r x)) (reading_score (read_field_best rd imgs r))) \<and>
       (\<forall>m < n.
          \<not> fle (reading_score (read_field_best rd imgs r))
               (reading_score (reading_of rd r (items imgs ! m)))))) \<and>
   (complete imread d \<longrightarrow>
      (let ev = group_evaluation rd imread d; rc = result_record gid ev
       in process_group rd imread gid d = Some rc \<and>
          angle_best ev = read_field_best rd (decoded imread d ''angle'') (rot ev) \<and>
          temp_best ev = read_field_best rd (decoded imread d ''temp'') (rot ev) \<and>
          depth_best ev = read_field_best rd (decoded imread d ''depth'') (rot ev) \<and>
          jpath rc [''sources'', ''angle''] = Some (JStr (src (angle_best ev))) \<and>
          jpath rc [''sources'', ''temp''] = Some (JStr (src (temp_best ev))) \<and>
          jpath rc [''sources'', ''depth''] = Some (JStr (src (depth_best ev)))))"
proof -
  have "let ev = group_evaluation rd imread d; rc = result_record gid ev
       in process_group rd imread gid d = Some rc \<and>
          angle_best ev = read_field_best rd (decoded imread d ''angle'') (rot ev) \<and>
          temp_best ev = read_field_best rd (decoded imread d ''temp'') (rot ev) \<and>
          depth_best ev = read_field_best rd (decoded imread d ''depth'') (rot ev) \<and>
          jpath rc [''sources'', ''angle''] = Some (JStr (src (angle_best ev))) \<and>
          jpath rc [''sources'', ''temp''] = Some (JStr (src (temp_best ev))) \<and>
          jpath rc [''sources'', ''depth''] = Some (JStr (src (depth_best ev)))"
    if c: "complete imread d"
    unfolding Let_def group_evaluation_def
    by (intro conjI process_group_complete [OF c, unfolded group_evaluation_def]
          result_record_get evaluate_bests)
  with read_field_best_choice [of rd imgs r] show ?thesis by blast
qed

text \<open>
  In the group read clearly the three variants of the temperature have the same score,
  and the first, \<open>sr\<close>, is returned and recorded.
\<close>

theorem field_reader_choice_witness:
  "complete sample_imread sample_files \<and>
   read_field_best clear_reader (decoded sample_imread sample_files ''temp'') 0 =
     \<lparr>src = ''sr'', txt' = ''37.5C'', sc = Fin 1\<rparr> \<and>
   at_path (process_group clear_reader sample_imread ''g2'' sample_files) [''sources'', ''temp''] =
     Some (JStr ''sr'')"
proof -
  from field_reader_choice [of clear_reader _ _ sample_imread sample_files "''g2''"] complete_sample
  have "process_group clear_reader sample_imread ''g2'' sample_files =
          Some (result_record ''g2'' (group_evaluation clear_reader sample_imread sample_files))"
    by (simp add: Let_def)
  then show ?thesis
    using complete_sample
    by (simp add: at_path_def evaluate_clear result_record_def decoded_sample read_clear)
qed

text \<open>
  Claim C6 as the specification states it, that the source selected is one of \<open>sr\<close>,
  \<open>v7\<close> and \<open>v8\<close>, fails for the group that the recognizer cannot read: the reader
  returns the source \<open>none\<close>, and the record holds it.
\<close>

theorem field_reader_choice_counterexample:
  "src (read_field_best blank_reader (decoded sample_imread sample_files ''angle'') 0) = ''none'' \<and>
   ''none'' \<notin> {''sr'', ''v7'', ''v8''} \<and>
   at_path (process_group blank_reader sample_imread ''g1'' sample_files) [''sources'', ''angle''] =
     Some (JStr ''none'')"
  using process_group_complete [OF complete_sample, of blank_reader "''g1''"]
  by (simp add: at_path_def group_evaluation_def evaluate_blank result_record_def
      read_field_best_blank)

section \<open>The fields of a record\<close>














section \<open>The rotation selector\<close>

lemma rotations_set: "set ROTATIONS = {0, 90, - 90, 180}"
  by (auto simp: ROTATIONS_def)

lemma rotations_hd_tl: "hd ROTATIONS # tl ROTATIONS = ROTATIONS"
  by (simp add: ROTATIONS_def)

lemma choose_rotation_in:
  "fst (choose_rotation rd a t d) \<in> set ROTATIONS \<and>
   snd (choose_rotation rd a t d) \<in>
     {''angle_sign_first'', ''unit_hint'', ''fallback_best_angle_score''}"
proof (cases "filter (\<lambda>r. sign_first (fst (probe rd a r))) ROTATIONS")
  case Nil
  have "py_max_key k (hd ROTATIONS) (tl ROTATIONS) \<in> set ROTATIONS" for k :: "int \<Rightarrow> pyfloat"
    using py_max_key_in [of k "hd ROTATIONS" "tl ROTATIONS"] by (simp only: rotations_hd_tl)
  then show ?thesis by (simp add: choose_rotation_def Let_def Nil)
next
  case (Cons r rs)
  have "py_max_key (\<lambda>r. snd (probe rd a r)) r rs \<in> set (r # rs)" by (rule py_max_key_in)
  then have "py_max_key (\<lambda>r. snd (probe rd a r)) r rs \<in> set ROTATIONS"
    unfolding Cons [symmetric] by simp
  then show ?thesis by (simp add: choose_rotation_def Let_def Cons)
qed

lemma choose_rotation_sign:
  assumes "r0 \<in> set ROTATIONS" "sign_first (fst (probe rd a r0))"
  shows "snd (choose_rotation rd a t d) = ''angle_sign_first''"
    and "sign_first (fst (probe rd a (fst (choose_rotation rd a t d))))"
    and "\<forall>r \<in> set ROTATIONS. sign_first (fst (probe rd a r)) \<longrightarrow>
           fle (snd (probe rd a r)) (snd (probe rd a (fst (choose_rotation rd a t d))))"
proof -
  define sign_rots where "sign_rots = filter (\<lambda>r. sign_first (fst (probe rd a r))) ROTATIONS"
  have "r0 \<in> set sign_rots" using assms by (simp add: sign_rots_def)
  then obtain r rs where rs: "sign_rots = r # rs" by (cases sign_rots) auto
  define res where "res = py_max_key (\<lambda>r. snd (probe rd a r)) r rs"
  have cr: "choose_rotation rd a t d = (res, ''angle_sign_first'')"
    using rs by (simp add: choose_rotation_def Let_def sign_rots_def res_def)
  have "res \<in> set sign_rots" unfolding rs res_def by (rule py_max_key_in)
  then have sf: "sign_first (fst (probe rd a res))" by (simp add: sign_rots_def)
  have gr: "fle (snd (probe rd a x)) (snd (probe rd a res))"
    if "x \<in> set ROTATIONS" "sign_first (fst (probe rd a x))" for x
  proof -
    have "x \<in> set (r # rs)" using that by (simp add: rs [symmetric] sign_rots_def)
    from py_max_key_greatest [OF this, of "\<lambda>r. snd (probe rd a r)"]
    have "\<not> flt (snd (probe rd a res)) (snd (probe rd a x))" by (simp add: res_def fgt_def)
    then show ?thesis
      by (simp add: fle_iff_not_flt [OF probe_conf_not_NaN probe_conf_not_NaN])
  qed
  show "snd (choose_rotation rd a t d) = ''angle_sign_first''" by (simp add: cr)
  show "sign_first (fst (probe rd a (fst (choose_rotation rd a t d))))" using sf by (simp add: cr)
  show "\<forall>r \<in> set ROTATIONS. sign_first (fst (probe rd a r)) \<longrightarrow>
           fle (snd (probe rd a r)) (snd (probe rd a (fst (choose_rotation rd a t d))))"
    using gr by (simp add: cr)
qed

lemma probe_unsigned:
  assumes "\<forall>i \<in> set (items a). \<not> sign_first (fst (rd r (snd i)))"
  shows "\<not> sign_first (fst (probe rd a r))"
  using probe_loop_result [of rd r "items a" "([], Fin 0)"] assms
  by (auto simp: probe_def sign_first_def remove_spaces_def)

lemma probe_signed:
  assumes "\<forall>i \<in> set (items a). sign_first (fst (rd r (snd i))) \<and> fle (Fin 0) (snd (rd r (snd i)))"
  shows "sign_first (fst (probe rd a r))"
proof -
  have first: "(''sr'', sr a) \<in> set (items a)" by (simp add: items_def)
  from probe_loop_result [of rd r "items a" "([], Fin 0)"]
  show ?thesis
  proof
    assume keep: "probe_loop rd r (items a) ([], Fin 0) = ([], Fin 0)"
    from assms first have "sign_first (fst (rd r (sr a)))" "fle (Fin 0) (snd (rd r (sr a)))"
      by auto
    then have "fgt (score_key (fst (rd r (sr a))) (snd (rd r (sr a)))) (Fin 0)"
      by (intro score_key_pos sign_first_has_num)
    moreover from probe_loop_greatest [of "([], Fin 0)" rd r "items a"] first
    have "\<not> fgt (score_key (fst (rd r (sr a))) (snd (rd r (sr a)))) (Fin 0)"
      by (auto simp: keep score_key_empty)
    ultimately show ?thesis by simp
  next
    assume "\<exists>si \<in> set (items a). probe_loop rd r (items a) ([], Fin 0) = rd r (snd si) \<and>
      fgt (score_key (fst (rd r (snd si))) (snd (rd r (snd si)))) (score_key (fst ([], Fin 0)) (snd ([], Fin 0)))"
    then show ?thesis using assms by (auto simp: probe_def)
  qed
qed

lemma choose_rotation_upside:
  assumes "\<forall>i \<in> set (items a). sign_first (fst (rd 180 (snd i))) \<and> fle (Fin 0) (snd (rd 180 (snd i)))"
    and "\<forall>r \<in> {0, 90, - 90}. \<forall>i \<in> set (items a). \<not> sign_first (fst (rd r (snd i)))"
  shows "choose_rotation rd a t d = (180, ''angle_sign_first'')"
proof -
  have "\<not> sign_first (fst (probe rd a 0))" "\<not> sign_first (fst (probe rd a 90))"
    "\<not> sign_first (fst (probe rd a (- 90)))"
    using assms(2) by (simp_all add: probe_unsigned)
  moreover have "sign_first (fst (probe rd a 180))" using assms(1) by (rule probe_signed)
  ultimately show ?thesis by (simp add: choose_rotation_def Let_def ROTATIONS_def)
qed

text \<open>
  Claim C4. Whatever the recognizer returns, \<open>choose_rotation\<close> returns one rotation
  among 0, 90, -90 and 180 and one tag among \<open>angle_sign_first\<close>, \<open>unit_hint\<close> and
  \<open>fallback_best_angle_score\<close>. If the text of the angle probe of some rotation has a
  sign prefix, the tag is \<open>angle_sign_first\<close> and the rotation returned is one whose
  probe has a sign prefix, with a confidence that no other such rotation exceeds. When
  the angle samples have a sign prefix at 180 only, with confidences that are not
  negative, the result is 180 with \<open>angle_sign_first\<close>.
\<close>

theorem choose_rotation_cascade:
  "fst (choose_rotation rd a t d) \<in> {0, 90, - 90, 180} \<and>
   snd (choose_rotation rd a t d) \<in>
     {''angle_sign_first'', ''unit_hint'', ''fallback_best_angle_score''} \<and>
   ((\<exists>r \<in> {0, 90, - 90, 180}. sign_first (fst (probe rd a r))) \<longrightarrow>
      snd (choose_rotation rd a t d) = ''angle_sign_first'' \<and>
      sign_first (fst (probe rd a (fst (choose_rotation rd a t d)))) \<and>
      (\<forall>r \<in> {0, 90, - 90, 180}.
         sign_first (fst (probe rd a r)) \<longrightarrow>
         fle (snd (probe rd a r)) (snd (probe rd a (fst (choose_rotation rd a t d)))))) \<and>
   ((\<forall>i \<in> set (items a).
        sign_first (fst (rd 180 (snd i))) \<and> fle (Fin 0) (snd (rd 180 (snd i)))) \<and>
    (\<forall>r \<in> {0, 90, - 90}. \<forall>i \<in> set (items a). \<not> sign_first (fst (rd r (snd i)))) \<longrightarrow>
      choose_rotation rd a t d = (180, ''angle_sign_first''))"
proof (intro conjI impI)
  show "fst (choose_rotation rd a t d) \<in> {0, 90, - 90, 180}"
    using choose_rotation_in [of rd a t d] by (simp only: rotations_set)
  show "snd (choose_rotation rd a t d) \<in>
     {''angle_sign_first'', ''unit_hint'', ''fallback_best_angle_score''}"
    using choose_rotation_in [of rd a t d] by simp
next
  assume "\<exists>r \<in> {0, 90, - 90, 180}. sign_first (fst (probe rd a r))"
  then obtain r0 where r0: "r0 \<in> set ROTATIONS" "sign_first (fst (probe rd a r0))"
    unfolding rotations_set [symmetric] by blast
  show "snd (choose_rotation rd a t d) = ''angle_sign_first''"
    using r0 by (rule choose_rotation_sign(1))
  show "sign_first (fst (probe rd a (fst (choose_rotation rd a t d))))"
    using r0 by (rule choose_rotation_sign(2))
  show "\<forall>r \<in> {0, 90, - 90, 180}.
         sign_first (fst (probe rd a r)) \<longrightarrow>
         fle (snd (probe rd a r)) (snd (probe rd a (fst (choose_rotation rd a t d))))"
    using choose_rotation_sign(3) [OF r0, of t d] by (simp only: rotations_set)
next
  assume "(\<forall>i \<in> set (items a).
        sign_first (fst (rd 180 (snd i))) \<and> fle (Fin 0) (snd (rd 180 (snd i)))) \<and>
    (\<forall>r \<in> {0, 90, - 90}. \<forall>i \<in> set (items a). \<not> sign_first (fst (rd r (snd i))))"
  then show "choose_rotation rd a t d = (180, ''angle_sign_first'')"
    by (intro choose_rotation_upside) simp_all
qed

lemma upside_scores:
  "fgt (score_key ''-12.5'' (Fin (1 / 2))) (Fin 0)"
  "fgt (score_key ''125'' (Fin 1)) (Fin 0)"
  by (rule score_key_pos; simp add: extract_num_str_def string_defs unsigned_match_def)+

lemma probe_upside:
  "probe upside_reader a 180 = (''-12.5'', Fin (1 / 2))"
  "probe upside_reader a 0 = (''125'', Fin 1)"
  "probe upside_reader a 90 = (''125'', Fin 1)"
  "probe upside_reader a (- 90) = (''125'', Fin 1)"
  by (simp_all add: probe_def items_def upside_reader_def score_key_empty upside_scores)

text \<open>
  A recognizer that reads a signed number at 180 only, with confidence 0.5 against 1.0
  at the other rotations: the rotation chosen is 180.
\<close>

theorem choose_rotation_cascade_witness:
  "sign_first (fst (probe upside_reader (decoded sample_imread sample_files ''angle'') 180)) \<and>
   snd (probe upside_reader (decoded sample_imread sample_files ''angle'') 180) = Fin (1 / 2) \<and>
   snd (probe upside_reader (decoded sample_imread sample_files ''angle'') 0) = Fin 1 \<and>
   choose_rotation upside_reader (decoded sample_imread sample_files ''angle'')
     (decoded sample_imread sample_files ''temp'') (decoded sample_imread sample_files ''depth'') =
     (180, ''angle_sign_first'')"
proof -
  have s: "sign_first ''-12.5''" "\<not> sign_first ''125''"
    by (simp_all add: sign_first_def string_defs)
  from choose_rotation_cascade [of upside_reader "decoded sample_imread sample_files ''angle''"
      "decoded sample_imread sample_files ''temp''" "decoded sample_imread sample_files ''depth''"]
  have "choose_rotation upside_reader (decoded sample_imread sample_files ''angle'')
     (decoded sample_imread sample_files ''temp'') (decoded sample_imread sample_files ''depth'') =
     (180, ''angle_sign_first'')"
    using s by (simp add: upside_reader_def)
  then show ?thesis using s by (simp add: probe_upside)
qed

end
